theory Spec2Isabelle
  imports Complex_Main "HOL-Library.Sublist"
begin

section \<open>The location update queue (src/utils/locationUpdateQueue.js)\<close>

text \<open>
  The module keeps failed location updates in AsyncStorage under one key and replays them.
  The model is an explicit state record: the three fields of the \<open>LocationUpdateQueue\<close>
  object, the value stored under \<open>LOCATION_QUEUE_KEY\<close>, the timeouts pending in the
  JavaScript runtime, and three logs (calls made to collaborators, lines written to the
  console, rejected promises nobody awaits).

  What the collaborators answer is not decided by the module, so every operation takes
  the answers as an argument: whether a storage read or write succeeds, what
  \<open>NetInfo.fetch\<close> reports, and what each call of \<open>actions.logsApi\<close> does.

  An \<open>async\<close> method is modelled twice. Run to completion, it is a computation of
  type \<open>(exn + 'a) \<times> lq_state\<close>, \<open>Inl\<close> being a thrown exception (a rejected promise)
  together with the state reached when it was thrown: this is what one call does when
  nothing else happens before it ends. As a task, it is cut at every \<open>await\<close>, and the
  pieces of all calls in flight are interleaved in any order: this is what calls do to
  one another.
\<close>

subsection \<open>Constants and data\<close>

definition MAX_RETRY_COUNT :: int where
  "MAX_RETRY_COUNT = 3"

definition RETRY_INTERVAL :: nat where
  "RETRY_INTERVAL = 30000"

text \<open>An item of the queue, as \<open>addToQueue\<close> builds it. Payload and headers are opaque.\<close>

record queue_item =
  data :: string
  headers :: string
  timestamp :: nat
  retryCount :: int

text \<open>
  What AsyncStorage holds under the key: nothing (\<open>getItem\<close> gives \<open>null\<close>), the JSON
  text of an array of items, or a text that \<open>JSON.parse\<close> rejects. \<open>JSON.stringify\<close>
  followed by \<open>JSON.parse\<close> is taken to give the items back.
\<close>

datatype stored = Absent | Items "queue_item list" | Malformed

datatype exn = StorageError | SyntaxError | NetInfoError | TransportError

text \<open>The answer of \<open>NetInfo.fetch()\<close> and of one \<open>actions.logsApi\<close> call.\<close>

datatype probe = Connected | Disconnected | ProbeRejects

datatype outcome = Delivered | ReportsError | Throws

datatype effect =
    GetItem
  | SetItem "queue_item list"
  | Fetch
  | Send queue_item
  | SetTimeout nat nat
  | ClearTimeout nat
  | AddEventListener
  | Unsubscribe

text \<open>
  The object and its surroundings. \<open>networkUnsubscribe\<close> tells whether the field holds
  the function that \<open>addEventListener\<close> returned. \<open>timeouts\<close> are the handles of the
  timeouts that are set and have neither fired nor been cleared; \<open>next_handle\<close> is the
  handle that the next \<open>setTimeout\<close> returns.
\<close>

record lq_state =
  isProcessing :: bool
  retryTimer :: "nat option"
  networkUnsubscribe :: bool
  storage :: stored
  timeouts :: "nat list"
  next_handle :: nat
  effects :: "effect list"
  console :: "string list"
  unhandled :: "exn list"

text \<open>The answers of the collaborators during one \<open>processQueue\<close> call.\<close>

record env =
  fetch :: probe
  read_ok :: bool
  send :: "nat \<Rightarrow> outcome"
  write_ok :: bool

text \<open>The answers during one \<open>addToQueue\<close> call, and during the pass it may start.\<close>

record aq_env =
  aq_read_ok :: bool
  aq_write_ok :: bool
  aq_fetch :: probe
  aq_pass :: env

subsection \<open>Sequencing, \<open>try\<close>/\<open>catch\<close>, calls that are not awaited\<close>

definition and_then ::
  "(exn + 'a) \<times> lq_state \<Rightarrow> ('a \<Rightarrow> lq_state \<Rightarrow> (exn + 'b) \<times> lq_state) \<Rightarrow> (exn + 'b) \<times> lq_state" where
  "and_then r f = (case r of (Inl e, s) \<Rightarrow> (Inl e, s) | (Inr v, s) \<Rightarrow> f v s)"

definition try_catch ::
  "(exn + 'a) \<times> lq_state \<Rightarrow> (exn \<Rightarrow> lq_state \<Rightarrow> (exn + 'a) \<times> lq_state) \<Rightarrow> (exn + 'a) \<times> lq_state" where
  "try_catch r h = (case r of (Inl e, s) \<Rightarrow> h e s | (Inr v, s) \<Rightarrow> (Inr v, s))"

text \<open>A call whose promise is dropped: a rejection reaches nobody and is recorded.\<close>

definition not_awaited :: "(exn + 'a) \<times> lq_state \<Rightarrow> lq_state" where
  "not_awaited r = (case r of (Inl e, s) \<Rightarrow> s\<lparr>unhandled := unhandled s @ [e]\<rparr> | (Inr v, s) \<Rightarrow> s)"

definition console_log :: "string \<Rightarrow> lq_state \<Rightarrow> lq_state" where
  "console_log msg s = s\<lparr>console := console s @ [msg]\<rparr>"

definition did :: "effect \<Rightarrow> lq_state \<Rightarrow> lq_state" where
  "did e s = s\<lparr>effects := effects s @ [e]\<rparr>"

subsection \<open>Collaborators\<close>

definition AsyncStorage_getItem :: "bool \<Rightarrow> lq_state \<Rightarrow> (exn + stored) \<times> lq_state" where
  "AsyncStorage_getItem ok s =
     (if ok then (Inr (storage s), did GetItem s) else (Inl StorageError, did GetItem s))"

definition AsyncStorage_setItem :: "bool \<Rightarrow> queue_item list \<Rightarrow> lq_state \<Rightarrow> (exn + unit) \<times> lq_state" where
  "AsyncStorage_setItem ok q s =
     (if ok then (Inr (), (did (SetItem q) s)\<lparr>storage := Items q\<rparr>)
      else (Inl StorageError, did (SetItem q) s))"

definition JSON_parse :: "stored \<Rightarrow> lq_state \<Rightarrow> (exn + queue_item list) \<times> lq_state" where
  "JSON_parse str s =
     (case str of Items q \<Rightarrow> (Inr q, s) | Malformed \<Rightarrow> (Inl SyntaxError, s) | Absent \<Rightarrow> (Inl SyntaxError, s))"

definition NetInfo_fetch :: "probe \<Rightarrow> lq_state \<Rightarrow> (exn + bool) \<times> lq_state" where
  "NetInfo_fetch p s =
     (case p of
        Connected \<Rightarrow> (Inr True, did Fetch s)
      | Disconnected \<Rightarrow> (Inr False, did Fetch s)
      | ProbeRejects \<Rightarrow> (Inl NetInfoError, did Fetch s))"

text \<open>\<open>actions.logsApi(item.data, item.headers)\<close>: the value is \<open>result.error\<close>.\<close>

definition actions_logsApi :: "outcome \<Rightarrow> queue_item \<Rightarrow> lq_state \<Rightarrow> (exn + bool) \<times> lq_state" where
  "actions_logsApi out item s =
     (case out of
        Delivered \<Rightarrow> (Inr False, did (Send item) s)
      | ReportsError \<Rightarrow> (Inr True, did (Send item) s)
      | Throws \<Rightarrow> (Inl TransportError, did (Send item) s))"

subsection \<open>The methods of \<open>LocationUpdateQueue\<close>\<close>

definition constructor :: "stored \<Rightarrow> lq_state" where
  "constructor st =
     \<lparr>isProcessing = False, retryTimer = None, networkUnsubscribe = False, storage = st,
      timeouts = [], next_handle = 1, effects = [], console = [], unhandled = []\<rparr>"

text \<open>
  \<open>scheduleRetry\<close>: clear the timer whose handle is held, set a new one. Handles are
  positive, hence truthy; a handle stays in \<open>retryTimer\<close> after its timeout has fired.
\<close>

definition clearTimeout :: "nat \<Rightarrow> lq_state \<Rightarrow> lq_state" where
  "clearTimeout t s = (did (ClearTimeout t) s)\<lparr>timeouts := removeAll t (timeouts s)\<rparr>"

definition setTimeout :: "nat \<Rightarrow> lq_state \<Rightarrow> nat \<times> lq_state" where
  "setTimeout ms s =
     (next_handle s,
      (did (SetTimeout (next_handle s) ms) s)
        \<lparr>timeouts := timeouts s @ [next_handle s], next_handle := Suc (next_handle s)\<rparr>)"

definition scheduleRetry :: "lq_state \<Rightarrow> lq_state" where
  "scheduleRetry s =
     (let s1 = (case retryTimer s of Some t \<Rightarrow> clearTimeout t s | None \<Rightarrow> s);
          (t, s2) = setTimeout RETRY_INTERVAL s1
      in s2\<lparr>retryTimer := Some t\<rparr>)"

definition getQueue :: "bool \<Rightarrow> lq_state \<Rightarrow> (exn + queue_item list) \<times> lq_state" where
  "getQueue ok s =
     try_catch
       (and_then (AsyncStorage_getItem ok s) (\<lambda>queueStr s.
          if queueStr \<noteq> Absent then JSON_parse queueStr s else (Inr [], s)))
       (\<lambda>error s. (Inr [], console_log ''Error getting location queue:'' s))"

definition saveQueue :: "bool \<Rightarrow> queue_item list \<Rightarrow> lq_state \<Rightarrow> (exn + unit) \<times> lq_state" where
  "saveQueue ok queue s =
     try_catch
       (AsyncStorage_setItem ok queue s)
       (\<lambda>error s. (Inr (), console_log ''Error saving location queue:'' s))"

text \<open>
  The body of the \<open>for\<close> loop of \<open>processQueue\<close> for one item; \<open>remainingItems\<close> is
  passed and returned. \<open>item.retryCount++\<close> followed by \<open>push(item)\<close> appends the
  item with the count raised.
\<close>

definition process_item ::
  "outcome \<Rightarrow> queue_item \<Rightarrow> queue_item list \<Rightarrow> lq_state \<Rightarrow> (exn + queue_item list) \<times> lq_state" where
  "process_item out item remainingItems s =
     try_catch
       (and_then (actions_logsApi out item s) (\<lambda>result_error s.
          if \<not> result_error \<or> retryCount item \<ge> MAX_RETRY_COUNT then (Inr remainingItems, s)
          else (Inr (remainingItems @ [item\<lparr>retryCount := retryCount item + 1\<rparr>]), s)))
       (\<lambda>error s.
          let s = console_log ''Error processing queued location:'' s
          in if retryCount item < MAX_RETRY_COUNT
             then (Inr (remainingItems @ [item\<lparr>retryCount := retryCount item + 1\<rparr>]), s)
             else (Inr remainingItems, s))"

text \<open>The loop: \<open>send i\<close> is what the \<open>i\<close>-th transport call of the pass does.\<close>

fun process_items ::
  "(nat \<Rightarrow> outcome) \<Rightarrow> nat \<Rightarrow> queue_item list \<Rightarrow> queue_item list \<Rightarrow> lq_state
     \<Rightarrow> (exn + queue_item list) \<times> lq_state" where
  "process_items sd i [] remainingItems s = (Inr remainingItems, s)"
| "process_items sd i (item # queue) remainingItems s =
     and_then (process_item (sd i) item remainingItems s) (\<lambda>remainingItems s.
       process_items sd (Suc i) queue remainingItems s)"

text \<open>
  The \<open>try\<close> block of \<open>processQueue\<close>. \<open>NetInfo\<close> tells whether the module was loaded
  (the source tests \<open>if (NetInfo)\<close>). Both early \<open>return\<close>s clear the flag themselves.
\<close>

definition processQueue_try :: "bool \<Rightarrow> env \<Rightarrow> lq_state \<Rightarrow> (exn + unit) \<times> lq_state" where
  "processQueue_try NetInfo ev s =
     and_then
       (if NetInfo then NetInfo_fetch (fetch ev) s else (Inr True, s))
       (\<lambda>isConnected s.
          if \<not> isConnected then (Inr (), scheduleRetry (s\<lparr>isProcessing := False\<rparr>))
          else
            and_then (getQueue (read_ok ev) s) (\<lambda>queue s.
              if length queue = 0 then (Inr (), s\<lparr>isProcessing := False\<rparr>)
              else
                and_then (process_items (send ev) 0 queue [] s) (\<lambda>remainingItems s.
                  and_then (saveQueue (write_ok ev) remainingItems s) (\<lambda>_ s.
                    if length remainingItems > 0 then (Inr (), scheduleRetry s)
                    else (Inr (), s)))))"

text \<open>\<open>processQueue\<close>: the guard, the flag, \<open>try\<close>/\<open>catch\<close>, and \<open>finally\<close>.\<close>

definition processQueue :: "bool \<Rightarrow> env \<Rightarrow> lq_state \<Rightarrow> (exn + unit) \<times> lq_state" where
  "processQueue NetInfo ev s =
     (if isProcessing s then (Inr (), s)
      else
        (case try_catch (processQueue_try NetInfo ev (s\<lparr>isProcessing := True\<rparr>))
                (\<lambda>error s. (Inr (), console_log ''Error processing location queue:'' s))
         of (r, s') \<Rightarrow> (r, s'\<lparr>isProcessing := False\<rparr>)))"

text \<open>
  \<open>addToQueue\<close>. \<open>queue.push\<close> then \<open>queue.shift\<close> when the length exceeds 50. The
  pass it starts is not awaited; nothing follows the call, so running the pass in place
  gives the state the two reach when no other call comes in between.
\<close>

definition addToQueue ::
  "bool \<Rightarrow> aq_env \<Rightarrow> string \<Rightarrow> string \<Rightarrow> nat \<Rightarrow> lq_state \<Rightarrow> (exn + unit) \<times> lq_state" where
  "addToQueue NetInfo ev locationData hdrs now s =
     try_catch
       (and_then (getQueue (aq_read_ok ev) s) (\<lambda>queue s.
          let newItem = \<lparr>data = locationData, headers = hdrs, timestamp = now, retryCount = 0\<rparr>;
              queue = queue @ [newItem];
              queue = (if length queue > 50 then tl queue else queue)
          in and_then (AsyncStorage_setItem (aq_write_ok ev) queue s) (\<lambda>_ s.
               if NetInfo then
                 and_then (NetInfo_fetch (aq_fetch ev) s) (\<lambda>isConnected s.
                   if isConnected \<and> \<not> isProcessing s
                   then (Inr (), not_awaited (processQueue NetInfo (aq_pass ev) s))
                   else (Inr (), s))
               else
                 (if \<not> isProcessing s
                  then (Inr (), not_awaited (processQueue NetInfo (aq_pass ev) s))
                  else (Inr (), s)))))
       (\<lambda>error s. (Inr (), console_log ''Error adding to location queue:'' s))"

text \<open>\<open>destroy\<close>: unsubscribe and clear the timeout whose handle is held.\<close>

definition destroy :: "lq_state \<Rightarrow> lq_state" where
  "destroy s =
     (let s = (if networkUnsubscribe s then did Unsubscribe s else s)
      in case retryTimer s of Some t \<Rightarrow> clearTimeout t s | None \<Rightarrow> s)"

subsection \<open>A pass as a task that is suspended at every \<open>await\<close>\<close>

text \<open>
  \<open>processQueue\<close> is \<open>async\<close>: between two \<open>await\<close>s it runs without interruption,
  and while it waits other calls may run. A suspended pass is at one of four places: at
  \<open>NetInfo.fetch()\<close>, at \<open>getItem\<close> inside \<open>getQueue\<close>, at \<open>logsApi\<close> for one item
  of the loop (with its index, the items still to come and \<open>remainingItems\<close>), or at
  \<open>setItem\<close> inside \<open>saveQueue\<close> (with \<open>remainingItems\<close>).

  \<open>processQueue_start\<close> is the code up to the first \<open>await\<close>; \<open>processQueue_resume\<close>
  is the code from one \<open>await\<close>, once the awaited promise has settled, to the next
  \<open>await\<close> or to the end of the method.
\<close>

datatype suspended =
    At_fetch
  | At_getItem
  | At_logsApi nat queue_item "queue_item list" "queue_item list"
  | At_setItem "queue_item list"

text \<open>The outer \<open>catch\<close> followed by \<open>finally\<close>.\<close>

definition catch_and_finally :: "lq_state \<Rightarrow> lq_state" where
  "catch_and_finally s = (console_log ''Error processing location queue:'' s)\<lparr>isProcessing := False\<rparr>"

definition processQueue_start :: "bool \<Rightarrow> lq_state \<Rightarrow> suspended option \<times> lq_state" where
  "processQueue_start NetInfo s =
     (if isProcessing s then (None, s)
      else (Some (if NetInfo then At_fetch else At_getItem), s\<lparr>isProcessing := True\<rparr>))"

fun processQueue_resume :: "env \<Rightarrow> suspended \<Rightarrow> lq_state \<Rightarrow> suspended option \<times> lq_state" where
  "processQueue_resume ev At_fetch s =
     (case NetInfo_fetch (fetch ev) s of
        (Inl error, s) \<Rightarrow> (None, catch_and_finally s)
      | (Inr isConnected, s) \<Rightarrow>
          if \<not> isConnected
          then (None, (scheduleRetry (s\<lparr>isProcessing := False\<rparr>))\<lparr>isProcessing := False\<rparr>)
          else (Some At_getItem, s))"
| "processQueue_resume ev At_getItem s =
     (case getQueue (read_ok ev) s of
        (Inl error, s) \<Rightarrow> (None, catch_and_finally s)
      | (Inr queue, s) \<Rightarrow>
          (case queue of
             [] \<Rightarrow> (None, (s\<lparr>isProcessing := False\<rparr>)\<lparr>isProcessing := False\<rparr>)
           | item # rest \<Rightarrow> (Some (At_logsApi 0 item rest []), s)))"
| "processQueue_resume ev (At_logsApi i item rest remainingItems) s =
     (case process_item (send ev i) item remainingItems s of
        (Inl error, s) \<Rightarrow> (None, catch_and_finally s)
      | (Inr remainingItems, s) \<Rightarrow>
          (case rest of
             [] \<Rightarrow> (Some (At_setItem remainingItems), s)
           | item # rest \<Rightarrow> (Some (At_logsApi (Suc i) item rest remainingItems), s)))"
| "processQueue_resume ev (At_setItem remainingItems) s =
     (case saveQueue (write_ok ev) remainingItems s of
        (Inl error, s) \<Rightarrow> (None, catch_and_finally s)
      | (Inr _, s) \<Rightarrow>
          (None, (if length remainingItems > 0 then scheduleRetry s else s)\<lparr>isProcessing := False\<rparr>))"

text \<open>
  The object together with the passes that are suspended. Three things can happen:
  somebody calls \<open>processQueue\<close> (a timer, the listener, \<open>addToQueue\<close>, \<open>init\<close>),
  the promise that the \<open>k\<close>-th suspended pass awaits settles, or another caller writes
  the stored queue.
\<close>

datatype event = Call | Settle nat env | Write "queue_item list"

fun react :: "bool \<Rightarrow> event \<Rightarrow> lq_state \<times> suspended list \<Rightarrow> lq_state \<times> suspended list" where
  "react NetInfo Call (s, ps) =
     (case processQueue_start NetInfo s of
        (None, s) \<Rightarrow> (s, ps)
      | (Some p, s) \<Rightarrow> (s, ps @ [p]))"
| "react NetInfo (Settle k ev) (s, ps) =
     (if k < length ps then
        (case processQueue_resume ev (ps ! k) s of
           (None, s) \<Rightarrow> (s, take k ps @ drop (Suc k) ps)
         | (Some p, s) \<Rightarrow> (s, ps[k := p]))
      else (s, ps))"
| "react NetInfo (Write q) (s, ps) = (s\<lparr>storage := Items q\<rparr>, ps)"

fun reacts :: "bool \<Rightarrow> event list \<Rightarrow> lq_state \<times> suspended list \<Rightarrow> lq_state \<times> suspended list" where
  "reacts NetInfo [] c = c"
| "reacts NetInfo (e # es) c = reacts NetInfo es (react NetInfo e c)"

text \<open>At most one pass is in flight, and the flag is set exactly while one is.\<close>

definition single_flight :: "lq_state \<times> suspended list \<Rightarrow> bool" where
  "single_flight c \<longleftrightarrow> length (snd c) \<le> 1 \<and> (isProcessing (fst c) \<longleftrightarrow> snd c \<noteq> [])"

text \<open>One pass resumed \<open>n\<close> times with nothing in between, all answers taken from \<open>ev\<close>.\<close>

fun drive :: "env \<Rightarrow> nat \<Rightarrow> suspended option \<times> lq_state \<Rightarrow> suspended option \<times> lq_state" where
  "drive ev 0 c = c"
| "drive ev (Suc n) (None, s) = (None, s)"
| "drive ev (Suc n) (Some p, s) = drive ev n (processQueue_resume ev p s)"

subsection \<open>The object with everything that is in flight\<close>

text \<open>
  \<open>addToQueue\<close> is \<open>async\<close> as well, and nobody awaits the pass it starts: the pass
  is still waiting for the store or the transport when \<open>addToQueue\<close> returns, and the
  next call runs in between. A suspended \<open>addToQueue\<close> is at \<open>getItem\<close> inside
  \<open>getQueue\<close> (holding its two arguments), at \<open>setItem\<close> (holding the queue it wrote
  out), or at \<open>NetInfo.fetch()\<close>.

  An awaited call of a collaborator acts when its promise settles: \<open>getItem\<close> returns
  what is stored then, and \<open>setItem\<close> replaces what is stored then. The store, the
  probe and the transport are asynchronous: the runtime settles each of their promises
  in a task of its own, and the code that waits for it, through \<open>getQueue\<close> or
  \<open>saveQueue\<close>, runs to its next \<open>await\<close> before another promise is settled.
  \<open>Date.now()\<close> is read after \<open>getQueue\<close> has returned, so the clock is one of the
  answers.

  \<open>addToQueue_resume\<close> is the code from one \<open>await\<close> to the next one or to the end;
  it is given the object and the passes in flight, because it may start a pass.
\<close>

datatype aq_suspended =
    Aq_getItem string string
  | Aq_setItem "queue_item list"
  | Aq_fetch

fun addToQueue_resume ::
  "bool \<Rightarrow> aq_env \<Rightarrow> nat \<Rightarrow> aq_suspended \<Rightarrow> lq_state \<times> suspended list
     \<Rightarrow> aq_suspended option \<times> lq_state \<times> suspended list" where
  "addToQueue_resume NetInfo ev now (Aq_getItem locationData hdrs) (s, ps) =
     (case getQueue (aq_read_ok ev) s of
        (Inl error, s) \<Rightarrow> (None, console_log ''Error adding to location queue:'' s, ps)
      | (Inr queue, s) \<Rightarrow>
          let newItem = \<lparr>data = locationData, headers = hdrs, timestamp = now, retryCount = 0\<rparr>;
              queue = queue @ [newItem];
              queue = (if length queue > 50 then tl queue else queue)
          in (Some (Aq_setItem queue), s, ps))"
| "addToQueue_resume NetInfo ev now (Aq_setItem queue) (s, ps) =
     (case AsyncStorage_setItem (aq_write_ok ev) queue s of
        (Inl error, s) \<Rightarrow> (None, console_log ''Error adding to location queue:'' s, ps)
      | (Inr _, s) \<Rightarrow>
          if NetInfo then (Some Aq_fetch, s, ps)
          else if \<not> isProcessing s then (None, react NetInfo Call (s, ps))
          else (None, s, ps))"
| "addToQueue_resume NetInfo ev now Aq_fetch (s, ps) =
     (case NetInfo_fetch (aq_fetch ev) s of
        (Inl error, s) \<Rightarrow> (None, console_log ''Error adding to location queue:'' s, ps)
      | (Inr isConnected, s) \<Rightarrow>
          if isConnected \<and> \<not> isProcessing s then (None, react NetInfo Call (s, ps))
          else (None, s, ps))"

text \<open>
  \<open>init\<close>: subscribe when NetInfo is there, call \<open>processQueue\<close> (which runs up to its
  first \<open>await\<close>), and schedule a retry when NetInfo is not there.
\<close>

fun init :: "bool \<Rightarrow> lq_state \<times> suspended list \<Rightarrow> lq_state \<times> suspended list" where
  "init NetInfo (s, ps) =
     (let s = (if NetInfo then (did AddEventListener s)\<lparr>networkUnsubscribe := True\<rparr> else s);
          (s, ps) = react NetInfo Call (s, ps)
      in (if \<not> NetInfo then scheduleRetry s else s, ps))"

text \<open>The listener that \<open>init\<close> registers, called with \<open>state.isConnected\<close>.\<close>

fun on_network_change :: "bool \<Rightarrow> bool \<Rightarrow> lq_state \<times> suspended list \<Rightarrow> lq_state \<times> suspended list" where
  "on_network_change NetInfo isConnected (s, ps) =
     (if isConnected \<and> \<not> isProcessing s then react NetInfo Call (s, ps) else (s, ps))"

text \<open>
  The callback of the timeout that \<open>scheduleRetry\<close> sets, when the timeout with handle
  \<open>t\<close> fires: the timeout is no longer pending, and \<open>processQueue\<close> is called.
\<close>

fun timer_fires :: "bool \<Rightarrow> nat \<Rightarrow> lq_state \<times> suspended list \<Rightarrow> lq_state \<times> suspended list" where
  "timer_fires NetInfo t (s, ps) =
     (if t \<in> set (timeouts s)
      then react NetInfo Call (s\<lparr>timeouts := removeAll t (timeouts s)\<rparr>, ps)
      else (s, ps))"

text \<open>
  What can happen to an object in use, between \<open>init\<close> and \<open>destroy\<close>: one of its
  methods is called, a pending timeout fires, the network state changes (the listener
  exists once \<open>init\<close> has subscribed), or the promise settles that the \<open>k\<close>-th suspended
  pass or the \<open>k\<close>-th suspended \<open>addToQueue\<close> awaits.
\<close>

datatype happening =
    Calls_init
  | Calls_addToQueue string string
  | Calls_processQueue
  | Timeout_fires nat
  | Network_changes bool
  | Pass_settles nat env
  | Add_settles nat aq_env nat

fun happen ::
  "bool \<Rightarrow> happening \<Rightarrow> lq_state \<times> suspended list \<times> aq_suspended list
     \<Rightarrow> lq_state \<times> suspended list \<times> aq_suspended list" where
  "happen NetInfo Calls_init (s, ps, qs) =
     (case init NetInfo (s, ps) of (s, ps) \<Rightarrow> (s, ps, qs))"
| "happen NetInfo (Calls_addToQueue locationData hdrs) (s, ps, qs) =
     (s, ps, qs @ [Aq_getItem locationData hdrs])"
| "happen NetInfo Calls_processQueue (s, ps, qs) =
     (case react NetInfo Call (s, ps) of (s, ps) \<Rightarrow> (s, ps, qs))"
| "happen NetInfo (Timeout_fires t) (s, ps, qs) =
     (case timer_fires NetInfo t (s, ps) of (s, ps) \<Rightarrow> (s, ps, qs))"
| "happen NetInfo (Network_changes isConnected) (s, ps, qs) =
     (if NetInfo \<and> networkUnsubscribe s
      then (case on_network_change NetInfo isConnected (s, ps) of (s, ps) \<Rightarrow> (s, ps, qs))
      else (s, ps, qs))"
| "happen NetInfo (Pass_settles k ev) (s, ps, qs) =
     (case react NetInfo (Settle k ev) (s, ps) of (s, ps) \<Rightarrow> (s, ps, qs))"
| "happen NetInfo (Add_settles k ev now) (s, ps, qs) =
     (if k < length qs then
        (case addToQueue_resume NetInfo ev now (qs ! k) (s, ps) of
           (None, s, ps) \<Rightarrow> (s, ps, take k qs @ drop (Suc k) qs)
         | (Some q, s, ps) \<Rightarrow> (s, ps, qs[k := q]))
      else (s, ps, qs))"

fun happens ::
  "bool \<Rightarrow> happening list \<Rightarrow> lq_state \<times> suspended list \<times> aq_suspended list
     \<Rightarrow> lq_state \<times> suspended list \<times> aq_suspended list" where
  "happens NetInfo [] w = w"
| "happens NetInfo (e # es) w = happens NetInfo es (happen NetInfo e w)"

text \<open>
  One \<open>addToQueue\<close> call that the caller awaits while nothing else happens: the call,
  and the settling of the up to three promises it awaits. With no other \<open>addToQueue\<close>
  in flight the call is the suspended one with index 0.
\<close>

fun awaited_call :: "aq_env \<times> string \<times> string \<times> nat \<Rightarrow> happening list" where
  "awaited_call (ev, locationData, hdrs, now) =
     [Calls_addToQueue locationData hdrs, Add_settles 0 ev now, Add_settles 0 ev now,
      Add_settles 0 ev now]"

subsection \<open>Sequences of passes\<close>

text \<open>A sequence of \<open>processQueue\<close> calls, each run to its end.\<close>

fun passes :: "bool \<Rightarrow> env list \<Rightarrow> lq_state \<Rightarrow> lq_state" where
  "passes NetInfo [] s = s"
| "passes NetInfo (ev # evs) s = passes NetInfo evs (snd (processQueue NetInfo ev s))"

subsection \<open>Reading the model\<close>

text \<open>The queue a successful load returns, and the queue \<open>getQueue\<close> returns.\<close>

definition persisted :: "lq_state \<Rightarrow> queue_item list" where
  "persisted s = (case storage s of Items q \<Rightarrow> q | _ \<Rightarrow> [])"

definition loaded :: "bool \<Rightarrow> lq_state \<Rightarrow> queue_item list" where
  "loaded ok s = (if ok then persisted s else [])"

text \<open>What the loop of a pass leaves in \<open>remainingItems\<close>, and what it logs.\<close>

fun retained :: "(nat \<Rightarrow> outcome) \<Rightarrow> nat \<Rightarrow> queue_item list \<Rightarrow> queue_item list" where
  "retained sd i [] = []"
| "retained sd i (item # queue) =
     (if sd i \<noteq> Delivered \<and> retryCount item < MAX_RETRY_COUNT
      then item\<lparr>retryCount := retryCount item + 1\<rparr> # retained sd (Suc i) queue
      else retained sd (Suc i) queue)"

fun caught :: "(nat \<Rightarrow> outcome) \<Rightarrow> nat \<Rightarrow> queue_item list \<Rightarrow> string list" where
  "caught sd i [] = []"
| "caught sd i (item # queue) =
     (if sd i = Throws then ''Error processing queued location:'' # caught sd (Suc i) queue
      else caught sd (Suc i) queue)"

text \<open>
  A pass reaches its loop: the guard is open, the probe (if any) says connected, and
  the queue it loads is not empty.
\<close>

definition pass_runs :: "bool \<Rightarrow> env \<Rightarrow> lq_state \<Rightarrow> bool" where
  "pass_runs NetInfo ev s \<longleftrightarrow>
     \<not> isProcessing s \<and> (NetInfo \<longrightarrow> fetch ev = Connected) \<and> loaded (read_ok ev) s \<noteq> []"

text \<open>The item \<open>addToQueue\<close> builds, and the queue it hands to \<open>setItem\<close>.\<close>

definition new_item :: "string \<Rightarrow> string \<Rightarrow> nat \<Rightarrow> queue_item" where
  "new_item locationData hdrs now =
     \<lparr>data = locationData, headers = hdrs, timestamp = now, retryCount = 0\<rparr>"

fun item_of :: "aq_env \<times> string \<times> string \<times> nat \<Rightarrow> queue_item" where
  "item_of (ev, locationData, hdrs, now) = new_item locationData hdrs now"

definition written :: "queue_item list \<Rightarrow> queue_item \<Rightarrow> queue_item list" where
  "written q x = (if length (q @ [x]) > 50 then tl (q @ [x]) else q @ [x])"

text \<open>The state of \<open>addToQueue\<close> after its \<open>getQueue\<close> and \<open>setItem\<close>.\<close>

definition wrote :: "aq_env \<Rightarrow> queue_item \<Rightarrow> lq_state \<Rightarrow> lq_state" where
  "wrote ev x s =
     snd (and_then (getQueue (aq_read_ok ev) s) (\<lambda>q s.
            AsyncStorage_setItem (aq_write_ok ev) (written q x) s))"

text \<open>The last \<open>n\<close> elements of a list.\<close>

definition newest :: "nat \<Rightarrow> 'a list \<Rightarrow> 'a list" where
  "newest n xs = drop (length xs - n) xs"

text \<open>
  The answers to an \<open>addToQueue\<close> call on a device that is offline: storage works, the
  probe does not report a connection, so no pass is started.
\<close>

definition offline :: "aq_env \<Rightarrow> bool" where
  "offline ev \<longleftrightarrow> aq_read_ok ev \<and> aq_write_ok ev \<and> aq_fetch ev \<noteq> Connected"

text \<open>The items that a list of runtime calls sent to the transport, in order.\<close>

fun attempts :: "effect list \<Rightarrow> queue_item list" where
  "attempts [] = []"
| "attempts (Send x # es) = x # attempts es"
| "attempts (e # es) = attempts es"

text \<open>What identifies an item from one pass to the next: all but its retry count.\<close>

definition identity_of :: "queue_item \<Rightarrow> string \<times> string \<times> nat" where
  "identity_of x = (data x, headers x, timestamp x)"

text \<open>The answers of a transport that reports an error wherever \<open>sd\<close> throws.\<close>

definition reported :: "(nat \<Rightarrow> outcome) \<Rightarrow> nat \<Rightarrow> outcome" where
  "reported sd i = (if sd i = Throws then ReportsError else sd i)"

definition without_console :: "lq_state \<Rightarrow> lq_state" where
  "without_console s = s\<lparr>console := []\<rparr>"

text \<open>The retry count of an item is within its bounds; so are all persisted ones.\<close>

definition retry_ok :: "queue_item \<Rightarrow> bool" where
  "retry_ok x \<longleftrightarrow> 0 \<le> retryCount x \<and> retryCount x \<le> MAX_RETRY_COUNT"

definition within_retry_limit :: "lq_state \<Rightarrow> bool" where
  "within_retry_limit s \<longleftrightarrow> (\<forall>x\<in>set (persisted s). retry_ok x)"

text \<open>
  A pass that is not cut short by the probe and whose read and write of the store
  succeed.
\<close>

definition effective :: "bool \<Rightarrow> env \<Rightarrow> bool" where
  "effective NetInfo ev \<longleftrightarrow> (NetInfo \<longrightarrow> fetch ev = Connected) \<and> read_ok ev \<and> write_ok ev"

text \<open>
  Every attempt to deliver an item with identity \<open>a\<close> fails, in each pass of a sequence
  of passes that starts in \<open>s\<close>: wherever such an item stands in the queue of a pass,
  the transport call for that position does not deliver.
\<close>

fun always_fails :: "bool \<Rightarrow> string \<times> string \<times> nat \<Rightarrow> env list \<Rightarrow> lq_state \<Rightarrow> bool" where
  "always_fails NetInfo a [] s = True"
| "always_fails NetInfo a (ev # evs) s =
     ((\<forall>i<length (persisted s). identity_of (persisted s ! i) = a \<longrightarrow> send ev i \<noteq> Delivered)
      \<and> always_fails NetInfo a evs (snd (processQueue NetInfo ev s)))"

text \<open>A queue after \<open>n\<close> failed attempts on each item: counts raised by \<open>n\<close>, and only
  the items whose count stays within the limit.\<close>

definition aged :: "nat \<Rightarrow> queue_item list \<Rightarrow> queue_item list" where
  "aged n q =
     map (\<lambda>x. x\<lparr>retryCount := retryCount x + int n\<rparr>)
       (filter (\<lambda>x. retryCount x + int n \<le> MAX_RETRY_COUNT) q)"

text \<open>
  The queues that are held somewhere: the stored one, the one a suspended pass will
  still write (\<open>remainingItems\<close>, the item being sent and the items to come), the one a
  suspended \<open>addToQueue\<close> is writing. \<open>everywhere P\<close> says that all of them satisfy \<open>P\<close>.
\<close>

fun in_hand :: "suspended \<Rightarrow> queue_item list" where
  "in_hand (At_logsApi i item rest remainingItems) = remainingItems @ item # rest"
| "in_hand (At_setItem remainingItems) = remainingItems"
| "in_hand _ = []"

fun aq_in_hand :: "aq_suspended \<Rightarrow> queue_item list" where
  "aq_in_hand (Aq_setItem queue) = queue"
| "aq_in_hand _ = []"

fun everywhere ::
  "(queue_item list \<Rightarrow> bool) \<Rightarrow> lq_state \<times> suspended list \<times> aq_suspended list \<Rightarrow> bool" where
  "everywhere P (s, ps, qs) \<longleftrightarrow>
     P (persisted s) \<and> (\<forall>p\<in>set ps. P (in_hand p)) \<and> (\<forall>q\<in>set qs. P (aq_in_hand q))"

text \<open>The store answers the reads and writes of the passes.\<close>

fun store_answers :: "happening \<Rightarrow> bool" where
  "store_answers (Pass_settles k ev) = (read_ok ev \<and> write_ok ev)"
| "store_answers _ = True"

text \<open>
  The flag is set exactly while a pass is in flight, no pass is at the probe, and when
  items are persisted and no pass is in flight, a timeout is pending.
\<close>

fun retry_pending :: "lq_state \<times> suspended list \<times> aq_suspended list \<Rightarrow> bool" where
  "retry_pending (s, ps, qs) \<longleftrightarrow>
     single_flight (s, ps) \<and> At_fetch \<notin> set ps
     \<and> (persisted s \<noteq> [] \<and> ps = [] \<longrightarrow> timeouts s \<noteq> [])"

subsection \<open>Concrete answers and queues, for the examples\<close>

definition always :: "outcome \<Rightarrow> nat \<Rightarrow> outcome" where
  "always out i = out"

text \<open>Answers given by a list, one per transport call; calls beyond the list deliver.\<close>

definition answers :: "outcome list \<Rightarrow> nat \<Rightarrow> outcome" where
  "answers outs i = (if i < length outs then outs ! i else Delivered)"

definition working_pass :: env where
  "working_pass = \<lparr>fetch = Connected, read_ok = True, send = always Delivered, write_ok = True\<rparr>"

definition failing_pass :: env where
  "failing_pass = \<lparr>fetch = Connected, read_ok = True, send = always ReportsError, write_ok = True\<rparr>"

definition throwing_pass :: env where
  "throwing_pass = \<lparr>fetch = Connected, read_ok = True, send = always Throws, write_ok = True\<rparr>"

definition mixed_pass :: env where
  "mixed_pass =
     \<lparr>fetch = Connected, read_ok = True, send = answers [ReportsError, Delivered, Throws],
      write_ok = True\<rparr>"

definition unsaved_pass :: env where
  "unsaved_pass = \<lparr>fetch = Connected, read_ok = True, send = always ReportsError, write_ok = False\<rparr>"

definition unread_pass :: env where
  "unread_pass = \<lparr>fetch = Connected, read_ok = False, send = always Delivered, write_ok = True\<rparr>"

definition offline_call :: aq_env where
  "offline_call =
     \<lparr>aq_read_ok = True, aq_write_ok = True, aq_fetch = Disconnected, aq_pass = failing_pass\<rparr>"

definition failing_call :: aq_env where
  "failing_call =
     \<lparr>aq_read_ok = True, aq_write_ok = True, aq_fetch = Connected, aq_pass = failing_pass\<rparr>"

definition offline_enqueue :: "nat \<Rightarrow> aq_env \<times> string \<times> string \<times> nat" where
  "offline_enqueue n = (offline_call, ''loc'', ''hdr'', n)"

definition three_items :: "queue_item list" where
  "three_items = [new_item ''A'' ''hdr'' 1, new_item ''B'' ''hdr'' 2, new_item ''C'' ''hdr'' 3]"

definition busy :: lq_state where
  "busy = (constructor (Items three_items))\<lparr>isProcessing := True\<rparr>"

section \<open>The payment calculation (src/utils/paymentCalculations.js)\<close>

text \<open>
  JavaScript numbers: the three special values and the finite ones. Finite values are
  exact rationals here; rounding and overflow of doubles are not modelled.
\<close>

datatype jsnum = NaN | PosInf | NegInf | Fin rat

datatype jsval = Undefined | Null | Boolean bool | Number jsnum | String string

record order =
  order_source :: jsval
  delivery_fee_paid_by :: jsval
  collect_delivery_fees :: jsval
  cash_to_be_collected :: jsval
  amount :: jsval
  order_cost :: jsval

record breakdown =
  customerPayment :: jsnum
  deliveryFees :: jsnum
  actualDeliveryFee :: "jsnum option"
  note_text :: string

text \<open>The returned object; the field \<open>note\<close> is called \<open>note_text\<close> here.\<close>

record collection =
  totalAmount :: jsnum
  includesDeliveryFees :: bool
  orderType :: string
  breakdown :: breakdown

text \<open>Truthiness, \<open>a || b\<close> and \<open>a ?? b\<close>.\<close>

fun truthy :: "jsval \<Rightarrow> bool" where
  "truthy Undefined = False"
| "truthy Null = False"
| "truthy (Boolean b) = b"
| "truthy (Number NaN) = False"
| "truthy (Number (Fin x)) = (x \<noteq> 0)"
| "truthy (Number _) = True"
| "truthy (String s) = (s \<noteq> [])"

definition or_else :: "jsval \<Rightarrow> jsval \<Rightarrow> jsval" where
  "or_else a b = (if truthy a then a else b)"

definition nullish_or :: "jsval \<Rightarrow> jsval \<Rightarrow> jsval" where
  "nullish_or a b = (if a = Undefined \<or> a = Null then b else a)"

text \<open>
  \<open>parseFloat\<close> on a string: leading white space, a sign, then \<open>Infinity\<close> or the
  longest decimal literal (digits, a fraction, an exponent); \<open>NaN\<close> when there is none.
\<close>

definition is_digit :: "char \<Rightarrow> bool" where
  "is_digit c \<longleftrightarrow> c \<in> set ''0123456789''"

definition is_space :: "char \<Rightarrow> bool" where
  "is_space c \<longleftrightarrow> c \<in> {CHR '' '', CHR 0x09, CHR 0x0A, CHR 0x0B, CHR 0x0C, CHR 0x0D}"

definition digits_value :: "string \<Rightarrow> nat" where
  "digits_value ds = foldl (\<lambda>a c. 10 * a + (of_char c - 48)) 0 ds"

text \<open>The exponent part at the head of a string: \<open>e\<close> or \<open>E\<close>, a sign, digits.\<close>

definition exponent :: "string \<Rightarrow> int" where
  "exponent s =
     (case s of
        [] \<Rightarrow> 0
      | c # r \<Rightarrow>
          if c = CHR ''e'' \<or> c = CHR ''E'' then
            (case r of
               [] \<Rightarrow> 0
             | d # r' \<Rightarrow>
                 if d = CHR ''-'' then - int (digits_value (takeWhile is_digit r'))
                 else if d = CHR ''+'' then int (digits_value (takeWhile is_digit r'))
                 else int (digits_value (takeWhile is_digit r)))
          else 0)"

definition scale :: "rat \<Rightarrow> int \<Rightarrow> rat" where
  "scale m e = (if e \<ge> 0 then m * 10 ^ nat e else m / 10 ^ nat (- e))"

definition unsigned_literal :: "string \<Rightarrow> rat option" where
  "unsigned_literal s =
     (let ip = takeWhile is_digit s;
          r1 = dropWhile is_digit s;
          fp = (case r1 of [] \<Rightarrow> [] | c # r \<Rightarrow> if c = CHR ''.'' then takeWhile is_digit r else []);
          r2 = (case r1 of [] \<Rightarrow> [] | c # r \<Rightarrow> if c = CHR ''.'' then dropWhile is_digit r else r1)
      in if ip = [] \<and> fp = [] then None
         else Some (scale (of_nat (digits_value ip) + of_nat (digits_value fp) / 10 ^ length fp)
                      (exponent r2)))"

definition unsigned_number :: "string \<Rightarrow> jsnum" where
  "unsigned_number s =
     (if take 8 s = ''Infinity'' then PosInf
      else case unsigned_literal s of None \<Rightarrow> NaN | Some x \<Rightarrow> Fin x)"

fun negate :: "jsnum \<Rightarrow> jsnum" where
  "negate NaN = NaN"
| "negate PosInf = NegInf"
| "negate NegInf = PosInf"
| "negate (Fin x) = Fin (- x)"

definition parseFloat_string :: "string \<Rightarrow> jsnum" where
  "parseFloat_string s =
     (case dropWhile is_space s of
        [] \<Rightarrow> NaN
      | c # r \<Rightarrow>
          if c = CHR ''-'' then negate (unsigned_number r)
          else if c = CHR ''+'' then unsigned_number r
          else unsigned_number (c # r))"

text \<open>\<open>parseFloat\<close> converts its argument to a string first.\<close>

fun parseFloat :: "jsval \<Rightarrow> jsnum" where
  "parseFloat (String s) = parseFloat_string s"
| "parseFloat (Number n) = n"
| "parseFloat _ = NaN"

definition isNaN :: "jsnum \<Rightarrow> bool" where
  "isNaN n \<longleftrightarrow> n = NaN"

text \<open>\<open>Math.max(0, x)\<close> and \<open>x + y\<close> on numbers.\<close>

fun Math_max0 :: "jsnum \<Rightarrow> jsnum" where
  "Math_max0 NaN = NaN"
| "Math_max0 PosInf = PosInf"
| "Math_max0 NegInf = Fin 0"
| "Math_max0 (Fin x) = Fin (max 0 x)"

fun plus_js :: "jsnum \<Rightarrow> jsnum \<Rightarrow> jsnum" where
  "plus_js NaN _ = NaN"
| "plus_js _ NaN = NaN"
| "plus_js PosInf NegInf = NaN"
| "plus_js NegInf PosInf = NaN"
| "plus_js PosInf _ = PosInf"
| "plus_js _ PosInf = PosInf"
| "plus_js NegInf _ = NegInf"
| "plus_js _ NegInf = NegInf"
| "plus_js (Fin x) (Fin y) = Fin (x + y)"

definition getErrorFallback :: "order option \<Rightarrow> collection" where
  "getErrorFallback orderData =
     (let fallbackAmount =
            (case orderData of
               Some od \<Rightarrow> parseFloat (or_else (or_else (cash_to_be_collected od) (amount od))
                                        (Number (Fin 0)))
             | None \<Rightarrow> Fin 0);
          safeFallback = Math_max0 (if isNaN fallbackAmount then Fin 0 else fallbackAmount)
      in \<lparr>totalAmount = safeFallback, includesDeliveryFees = False, orderType = ''Error'',
          breakdown = \<lparr>customerPayment = safeFallback, deliveryFees = Fin 0,
                       actualDeliveryFee = None,
                       note_text = ''Error in calculation - using customer payment only''\<rparr>\<rparr>)"

text \<open>
  \<open>calculateDriverCollection\<close>. Nothing in the \<open>try\<close> block raises on these
  values, so the \<open>catch\<close> is never entered. The test \<open>isNaN(deliveryFees)\<close> of
  the source only logs: \<open>deliveryFees\<close> keeps its value.
\<close>

definition calculateDriverCollection :: "order option \<Rightarrow> collection" where
  "calculateDriverCollection orderData =
     (case orderData of
        None \<Rightarrow> getErrorFallback None
      | Some od \<Rightarrow>
          let cashToCollect = parseFloat (or_else (or_else (cash_to_be_collected od) (amount od))
                                            (Number (Fin 0)));
              deliveryFees = parseFloat (or_else (order_cost od) (Number (Fin 0)))
          in if isNaN cashToCollect then getErrorFallback orderData
             else
               let safeCashToCollect = Math_max0 cashToCollect;
                   safeDeliveryFees = Math_max0 deliveryFees;
                   orderSource = or_else (order_source od) (String ''dispatch_panel'');
                   deliveryFeePaidBy = or_else (delivery_fee_paid_by od) (String ''restaurant'');
                   collectDeliveryFees = nullish_or (collect_delivery_fees od) (Boolean False)
               in if orderSource = String ''dispatch_panel'' \<or> deliveryFeePaidBy = String ''restaurant''
                  then \<lparr>totalAmount = safeCashToCollect, includesDeliveryFees = False,
                        orderType = ''B2B'',
                        breakdown = \<lparr>customerPayment = safeCashToCollect, deliveryFees = Fin 0,
                                     actualDeliveryFee = Some safeDeliveryFees,
                                     note_text = ''Delivery fee paid by restaurant''\<rparr>\<rparr>
                  else if truthy collectDeliveryFees \<or> deliveryFeePaidBy = String ''customer''
                          \<or> orderSource = String ''customer_app'' \<or> orderSource = String ''website''
                  then \<lparr>totalAmount = plus_js safeCashToCollect safeDeliveryFees,
                        includesDeliveryFees = True, orderType = ''B2C'',
                        breakdown = \<lparr>customerPayment = safeCashToCollect,
                                     deliveryFees = safeDeliveryFees, actualDeliveryFee = None,
                                     note_text = ''Customer pays all fees''\<rparr>\<rparr>
                  else \<lparr>totalAmount = safeCashToCollect, includesDeliveryFees = False,
                        orderType = ''Unknown'',
                        breakdown = \<lparr>customerPayment = safeCashToCollect, deliveryFees = Fin 0,
                                     actualDeliveryFee = Some safeDeliveryFees,
                                     note_text = ''Using fallback calculation (defaulting to B2B)''\<rparr>\<rparr>)"

text \<open>
  The second example of the documentation comment, and the same order with a delivery
  fee that is not a number.
\<close>

definition b2c_order :: order where
  "b2c_order =
     \<lparr>order_source = String ''customer_app'', delivery_fee_paid_by = String ''customer'',
      collect_delivery_fees = Boolean True, cash_to_be_collected = String ''80.00'',
      amount = Undefined, order_cost = String ''13.00''\<rparr>"

definition unpriced_order :: order where
  "unpriced_order = b2c_order\<lparr>order_cost := String ''N/A''\<rparr>"

section \<open>Properties of the queue\<close>

subsection \<open>What each method computes\<close>

lemma process_item_eq:
  "process_item out item rem s =
     (Inr (rem @ (if out \<noteq> Delivered \<and> retryCount item < MAX_RETRY_COUNT
                  then [item\<lparr>retryCount := retryCount item + 1\<rparr>] else [])),
      s\<lparr>effects := effects s @ [Send item],
        console := console s @ (if out = Throws then [''Error processing queued location:''] else [])\<rparr>)"
  by (cases out) (simp_all add: process_item_def actions_logsApi_def and_then_def try_catch_def
      did_def console_log_def)

lemma process_items_eq:
  "process_items sd i queue rem s =
     (Inr (rem @ retained sd i queue),
      s\<lparr>effects := effects s @ map Send queue, console := console s @ caught sd i queue\<rparr>)"
proof (induction queue arbitrary: i rem s)
  case Nil
  show ?case by simp
next
  case (Cons item queue)
  show ?case
    by (simp add: process_item_eq and_then_def Cons.IH)
qed

lemma getQueue_eq:
  "getQueue ok s =
     (Inr (loaded ok s),
      s\<lparr>effects := effects s @ [GetItem],
        console := console s @ (if ok \<and> storage s \<noteq> Malformed then []
                                else [''Error getting location queue:''])\<rparr>)"
  by (cases "storage s")
     (simp_all add: getQueue_def AsyncStorage_getItem_def JSON_parse_def and_then_def
        try_catch_def did_def console_log_def loaded_def persisted_def)

lemma saveQueue_eq:
  "saveQueue ok q s =
     (Inr (),
      if ok then s\<lparr>storage := Items q, effects := effects s @ [SetItem q]\<rparr>
      else s\<lparr>effects := effects s @ [SetItem q],
             console := console s @ [''Error saving location queue:'']\<rparr>)"
  by (simp add: saveQueue_def AsyncStorage_setItem_def try_catch_def did_def console_log_def)

lemma scheduleRetry_eq:
  "scheduleRetry s =
     s\<lparr>retryTimer := Some (next_handle s),
       timeouts := filter (\<lambda>h. retryTimer s \<noteq> Some h) (timeouts s) @ [next_handle s],
       next_handle := Suc (next_handle s),
       effects := effects s @ (case retryTimer s of Some t \<Rightarrow> [ClearTimeout t] | None \<Rightarrow> [])
                    @ [SetTimeout (next_handle s) RETRY_INTERVAL]\<rparr>"
  by (simp add: scheduleRetry_def clearTimeout_def setTimeout_def did_def removeAll_filter_not_eq
      split: option.splits)

lemma scheduleRetry_fields [simp]:
  "isProcessing (scheduleRetry s) = isProcessing s"
  "networkUnsubscribe (scheduleRetry s) = networkUnsubscribe s"
  "storage (scheduleRetry s) = storage s"
  "console (scheduleRetry s) = console s"
  "unhandled (scheduleRetry s) = unhandled s"
  "timeouts (scheduleRetry s) \<noteq> []"
  by (simp_all add: scheduleRetry_eq)

lemma scheduleRetry_effects: "\<exists>es. effects (scheduleRetry s) = effects s @ es"
  by (simp add: scheduleRetry_eq)

lemma without_console_update [simp]:
  "without_console (s\<lparr>console := c\<rparr>) = without_console s"
  "without_console (s\<lparr>isProcessing := b\<rparr>) = (without_console s)\<lparr>isProcessing := b\<rparr>"
  "without_console (s\<lparr>storage := st\<rparr>) = (without_console s)\<lparr>storage := st\<rparr>"
  "without_console (s\<lparr>effects := es\<rparr>) = (without_console s)\<lparr>effects := es\<rparr>"
  by (simp_all add: without_console_def)

lemma without_console_fields [simp]:
  "isProcessing (without_console s) = isProcessing s"
  "retryTimer (without_console s) = retryTimer s"
  "storage (without_console s) = storage s"
  "timeouts (without_console s) = timeouts s"
  "next_handle (without_console s) = next_handle s"
  "effects (without_console s) = effects s"
  by (simp_all add: without_console_def)

lemma without_console_scheduleRetry [simp]:
  "without_console (scheduleRetry s) = scheduleRetry (without_console s)"
  by (rule lq_state.equality) (simp_all add: scheduleRetry_eq without_console_def)

lemmas processQueue_unfold =
  processQueue_def processQueue_try_def NetInfo_fetch_def getQueue_eq process_items_eq
  saveQueue_eq and_then_def try_catch_def did_def console_log_def

lemma persisted_update [simp]:
  "persisted (s\<lparr>isProcessing := b\<rparr>) = persisted s"
  "persisted (s\<lparr>retryTimer := r\<rparr>) = persisted s"
  "persisted (s\<lparr>networkUnsubscribe := n\<rparr>) = persisted s"
  "persisted (s\<lparr>timeouts := ts\<rparr>) = persisted s"
  "persisted (s\<lparr>next_handle := h\<rparr>) = persisted s"
  "persisted (s\<lparr>effects := es\<rparr>) = persisted s"
  "persisted (s\<lparr>console := c\<rparr>) = persisted s"
  "persisted (s\<lparr>unhandled := u\<rparr>) = persisted s"
  "persisted (s\<lparr>storage := Items q\<rparr>) = q"
  by (simp_all add: persisted_def)

lemma loaded_update [simp]:
  "loaded ok (s\<lparr>isProcessing := b\<rparr>) = loaded ok s"
  "loaded ok (s\<lparr>retryTimer := r\<rparr>) = loaded ok s"
  "loaded ok (s\<lparr>networkUnsubscribe := n\<rparr>) = loaded ok s"
  "loaded ok (s\<lparr>timeouts := ts\<rparr>) = loaded ok s"
  "loaded ok (s\<lparr>next_handle := h\<rparr>) = loaded ok s"
  "loaded ok (s\<lparr>effects := es\<rparr>) = loaded ok s"
  "loaded ok (s\<lparr>console := c\<rparr>) = loaded ok s"
  "loaded ok (s\<lparr>unhandled := u\<rparr>) = loaded ok s"
  by (simp_all add: loaded_def)

lemma persisted_scheduleRetry [simp]: "persisted (scheduleRetry s) = persisted s"
  by (simp add: persisted_def)

lemma persisted_console_log [simp]: "persisted (console_log m s) = persisted s"
  by (simp add: persisted_def console_log_def)

lemma persisted_did [simp]: "persisted (did e s) = persisted s"
  by (simp add: persisted_def did_def)

lemma length_loaded: "length (loaded ok s) \<le> length (persisted s)"
  by (simp add: loaded_def)

lemma processQueue_returns: "fst (processQueue NetInfo ev s) = Inr ()"
  by (cases "fetch ev") (simp_all add: processQueue_unfold)

lemma not_awaited_processQueue [simp]:
  "not_awaited (processQueue NetInfo ev s) = snd (processQueue NetInfo ev s)"
  using processQueue_returns [of NetInfo ev s]
  by (cases "processQueue NetInfo ev s") (simp add: not_awaited_def)

lemma processQueue_isProcessing:
  "isProcessing (snd (processQueue NetInfo ev s)) = isProcessing s"
  by (simp add: processQueue_def split: prod.splits)

lemma processQueue_unhandled: "unhandled (snd (processQueue NetInfo ev s)) = unhandled s"
  by (cases "fetch ev") (simp_all add: processQueue_unfold)

lemma processQueue_storage:
  "storage (snd (processQueue NetInfo ev s)) =
     (if pass_runs NetInfo ev s \<and> write_ok ev
      then Items (retained (send ev) 0 (loaded (read_ok ev) s)) else storage s)"
  by (cases "fetch ev")
     (simp_all add: processQueue_unfold pass_runs_def loaded_def persisted_def)

lemma processQueue_saves:
  assumes "pass_runs NetInfo ev s"
  shows "SetItem (retained (send ev) 0 (persisted s)) \<in> set (effects (snd (processQueue NetInfo ev s)))"
proof -
  have l: "loaded (read_ok ev) s = persisted s"
    using assms by (auto simp: pass_runs_def loaded_def split: if_splits)
  have "x \<in> set (effects (scheduleRetry s'))" if "x \<in> set (effects s')" for x s'
    using that scheduleRetry_effects [of s'] by auto
  then show ?thesis
    using assms l
    by (cases "fetch ev") (simp_all add: processQueue_unfold pass_runs_def)
qed

lemma addToQueue_eq:
  "addToQueue NetInfo ev d h now s =
     (Inr (),
      if \<not> aq_write_ok ev then
        console_log ''Error adding to location queue:'' (wrote ev (new_item d h now) s)
      else if NetInfo then
        (case aq_fetch ev of
           Connected \<Rightarrow>
             if isProcessing s then did Fetch (wrote ev (new_item d h now) s)
             else snd (processQueue NetInfo (aq_pass ev) (did Fetch (wrote ev (new_item d h now) s)))
         | Disconnected \<Rightarrow> did Fetch (wrote ev (new_item d h now) s)
         | ProbeRejects \<Rightarrow>
             console_log ''Error adding to location queue:''
               (did Fetch (wrote ev (new_item d h now) s)))
      else if isProcessing s then wrote ev (new_item d h now) s
      else snd (processQueue NetInfo (aq_pass ev) (wrote ev (new_item d h now) s)))"
  by (cases "aq_fetch ev")
     (simp_all add: addToQueue_def getQueue_eq AsyncStorage_setItem_def NetInfo_fetch_def
        and_then_def try_catch_def did_def console_log_def Let_def new_item_def written_def
        wrote_def)

lemma wrote_fields:
  "storage (wrote ev x s) =
     (if aq_write_ok ev then Items (written (loaded (aq_read_ok ev) s) x) else storage s)"
  "isProcessing (wrote ev x s) = isProcessing s"
  "timeouts (wrote ev x s) = timeouts s"
  "retryTimer (wrote ev x s) = retryTimer s"
  "next_handle (wrote ev x s) = next_handle s"
  "unhandled (wrote ev x s) = unhandled s"
  "effects (wrote ev x s) = effects s @ [GetItem, SetItem (written (loaded (aq_read_ok ev) s) x)]"
  by (simp_all add: wrote_def getQueue_eq AsyncStorage_setItem_def and_then_def did_def)

lemma persisted_wrote:
  "persisted (wrote ev x s) =
     (if aq_write_ok ev then written (loaded (aq_read_ok ev) s) x else persisted s)"
  by (simp add: persisted_def wrote_fields)

lemma addToQueue_unhandled: "unhandled (snd (addToQueue NetInfo ev d h now s)) = unhandled s"
  by (cases "aq_fetch ev")
     (simp_all add: addToQueue_eq processQueue_unhandled wrote_fields did_def console_log_def)

text \<open>Evaluation of the methods on concrete states.\<close>

lemmas evaluate =
  addToQueue_def processQueue_def processQueue_try_def getQueue_def
  saveQueue_def process_item_def scheduleRetry_def setTimeout_def clearTimeout_def
  AsyncStorage_getItem_def AsyncStorage_setItem_def JSON_parse_def NetInfo_fetch_def
  actions_logsApi_def and_then_def try_catch_def not_awaited_def did_def console_log_def
  constructor_def persisted_def new_item_def always_def Let_def MAX_RETRY_COUNT_def

text \<open>
  The pieces of the methods as tasks, in closed form: what a call of \<open>processQueue\<close>
  does to the passes in flight, where a resumed pass stops next and what is stored
  then, and the three pieces of \<open>addToQueue\<close>.
\<close>

lemma react_Call:
  "react N Call (s, ps) =
     (if isProcessing s then (s, ps)
      else (s\<lparr>isProcessing := True\<rparr>, ps @ [if N then At_fetch else At_getItem]))"
  by (simp add: processQueue_start_def)

lemma resume_next:
  "fst (processQueue_resume ev p s) =
     (case p of
        At_fetch \<Rightarrow> if fetch ev = Connected then Some At_getItem else None
      | At_getItem \<Rightarrow>
          (case loaded (read_ok ev) s of
             [] \<Rightarrow> None
           | item # rest \<Rightarrow> Some (At_logsApi 0 item rest []))
      | At_logsApi i item rest rem \<Rightarrow>
          (case rest of
             [] \<Rightarrow> Some (At_setItem (rem @ retained (send ev) i [item]))
           | item' # rest' \<Rightarrow> Some (At_logsApi (Suc i) item' rest' (rem @ retained (send ev) i [item])))
      | At_setItem rem \<Rightarrow> None)"
proof (cases p)
  case At_fetch
  then show ?thesis
    by (cases "fetch ev") (simp_all add: NetInfo_fetch_def)
next
  case At_getItem
  then show ?thesis
    by (simp add: getQueue_eq split: list.splits)
next
  case (At_logsApi i item rest rem)
  then show ?thesis
    by (simp add: process_item_eq split: list.splits)
next
  case (At_setItem rem)
  then show ?thesis
    by (simp add: saveQueue_eq)
qed

lemma resume_persisted:
  "persisted (snd (processQueue_resume ev p s)) =
     (case p of At_setItem rem \<Rightarrow> if write_ok ev then rem else persisted s | _ \<Rightarrow> persisted s)"
proof (cases p)
  case At_fetch
  then show ?thesis
    by (cases "fetch ev") (simp_all add: NetInfo_fetch_def catch_and_finally_def)
next
  case At_getItem
  then show ?thesis
    by (simp add: getQueue_eq split: list.splits)
next
  case (At_logsApi i item rest rem)
  then show ?thesis
    by (simp add: process_item_eq split: list.splits)
next
  case (At_setItem rem)
  then show ?thesis
    by (simp add: saveQueue_eq)
qed

lemma persisted_getQueue [simp]: "persisted (snd (getQueue ok s)) = persisted s"
  by (simp add: getQueue_eq)

lemma addToQueue_resume_getItem:
  "addToQueue_resume N ev now (Aq_getItem d h) (s, ps) =
     (Some (Aq_setItem (written (loaded (aq_read_ok ev) s) (new_item d h now))),
      snd (getQueue (aq_read_ok ev) s), ps)"
  by (simp add: getQueue_eq written_def new_item_def Let_def)

lemma addToQueue_resume_setItem:
  "addToQueue_resume N ev now (Aq_setItem queue) (s, ps) =
     (if \<not> aq_write_ok ev
      then (None, console_log ''Error adding to location queue:'' (did (SetItem queue) s), ps)
      else if N then (Some Aq_fetch, (did (SetItem queue) s)\<lparr>storage := Items queue\<rparr>, ps)
      else (None, react N Call ((did (SetItem queue) s)\<lparr>storage := Items queue\<rparr>, ps)))"
  by (simp add: AsyncStorage_setItem_def processQueue_start_def did_def)

lemma addToQueue_resume_fetch:
  "addToQueue_resume N ev now Aq_fetch (s, ps) =
     (case aq_fetch ev of
        Connected \<Rightarrow> (None, react N Call (did Fetch s, ps))
      | Disconnected \<Rightarrow> (None, did Fetch s, ps)
      | ProbeRejects \<Rightarrow> (None, console_log ''Error adding to location queue:'' (did Fetch s), ps))"
  by (cases "aq_fetch ev") (simp_all add: NetInfo_fetch_def processQueue_start_def did_def)

lemma happens_append: "happens N (xs @ ys) w = happens N ys (happens N xs w)"
  by (induction xs arbitrary: w) simp_all

lemmas world_evaluate =
  happen.simps happens.simps addToQueue_resume.simps react.simps processQueue_resume.simps
  processQueue_start_def init.simps timer_fires.simps awaited_call.simps catch_and_finally_def

subsection \<open>The queues that are held while calls are in flight\<close>

text \<open>
  A property of queues that holds of the empty queue, that survives the removal of an
  item, the raising of a retry count below the limit, and the appending of a new item by
  \<open>addToQueue\<close>, holds of every queue that is ever stored, whatever happens and in
  whatever order, once it holds of all queues that are held.
\<close>

lemma resume_everywhere:
  assumes nil: "P []"
    and kept: "\<forall>rem item rest. P (rem @ item # rest) \<longrightarrow> P (rem @ rest)"
    and bumped: "\<forall>rem item rest. P (rem @ item # rest) \<and> retryCount item < MAX_RETRY_COUNT
                   \<longrightarrow> P (rem @ item\<lparr>retryCount := retryCount item + 1\<rparr> # rest)"
    and s: "P (persisted s)" and p: "P (in_hand p)"
  shows "P (persisted (snd (processQueue_resume ev p s)))"
    and "fst (processQueue_resume ev p s) = Some p' \<Longrightarrow> P (in_hand p')"
proof -
  show "P (persisted (snd (processQueue_resume ev p s)))"
    unfolding resume_persisted using s p by (cases p) simp_all
  assume "fst (processQueue_resume ev p s) = Some p'"
  then have n: "(case p of
        At_fetch \<Rightarrow> if fetch ev = Connected then Some At_getItem else None
      | At_getItem \<Rightarrow>
          (case loaded (read_ok ev) s of
             [] \<Rightarrow> None
           | item # rest \<Rightarrow> Some (At_logsApi 0 item rest []))
      | At_logsApi i item rest rem \<Rightarrow>
          (case rest of
             [] \<Rightarrow> Some (At_setItem (rem @ retained (send ev) i [item]))
           | item' # rest' \<Rightarrow> Some (At_logsApi (Suc i) item' rest' (rem @ retained (send ev) i [item])))
      | At_setItem rem \<Rightarrow> None) = Some p'"
    unfolding resume_next .
  show "P (in_hand p')"
  proof (cases p)
    case At_fetch
    then show ?thesis
      using n nil by (auto split: if_splits)
  next
    case At_getItem
    then show ?thesis
      using n s by (auto simp: loaded_def split: list.splits if_splits)
  next
    case (At_logsApi i item rest rem)
    have a: "P (rem @ rest)" and b: "retryCount item < MAX_RETRY_COUNT \<Longrightarrow>
        P (rem @ item\<lparr>retryCount := retryCount item + 1\<rparr> # rest)"
      using p kept bumped by (simp_all add: At_logsApi)
    show ?thesis
      using n a b by (auto simp: At_logsApi split: list.splits if_splits)
  next
    case (At_setItem rem)
    then show ?thesis
      using n by simp
  qed
qed

lemma react_everywhere:
  assumes nil: "P []"
    and kept: "\<forall>rem item rest. P (rem @ item # rest) \<longrightarrow> P (rem @ rest)"
    and bumped: "\<forall>rem item rest. P (rem @ item # rest) \<and> retryCount item < MAX_RETRY_COUNT
                   \<longrightarrow> P (rem @ item\<lparr>retryCount := retryCount item + 1\<rparr> # rest)"
    and w: "everywhere P (s, ps, qs)" and e: "e = Call \<or> e = Settle k ev"
    and r: "react N e (s, ps) = (s', ps')"
  shows "everywhere P (s', ps', qs)"
proof (cases "e = Call")
  case True
  then have "react N Call (s, ps) = (s', ps')"
    using r by simp
  then show ?thesis
    using w nil unfolding react_Call by (auto split: if_splits)
next
  case False
  then have e': "e = Settle k ev"
    using e by simp
  show ?thesis
  proof (cases "k < length ps")
    case k: True
    have pk: "P (in_hand (ps ! k))" and ps: "P (persisted s)"
      using w k by simp_all
    note re = resume_everywhere [of P s "ps ! k" ev, OF nil kept bumped ps pk]
    obtain n s1 where c: "processQueue_resume ev (ps ! k) s = (n, s1)"
      by (cases "processQueue_resume ev (ps ! k) s") auto
    have s1: "P (persisted s1)"
      using re(1) by (simp add: c)
    show ?thesis
    proof (cases n)
      case None
      then have "s' = s1" "ps' = take k ps @ drop (Suc k) ps"
        using r k by (simp_all add: e' c)
      moreover have "set (take k ps @ drop (Suc k) ps) \<subseteq> set ps"
        using set_take_subset [of k ps] set_drop_subset [of "Suc k" ps] by auto
      ultimately show ?thesis
        using w s1 by auto
    next
      case (Some p')
      then have "s' = s1" "ps' = ps[k := p']"
        using r k by (simp_all add: e' c)
      moreover have "P (in_hand p')"
        using re(2) c Some by simp
      moreover have "set (ps[k := p']) \<subseteq> insert p' (set ps)"
        by (rule set_update_subset_insert)
      ultimately show ?thesis
        using w s1 by auto
    qed
  next
    case False
    then show ?thesis
      using w r by (simp add: e')
  qed
qed

lemma addToQueue_resume_everywhere:
  assumes nil: "P []"
    and wr: "\<forall>q d h now. P q \<longrightarrow> P (written q (new_item d h now))"
    and w: "everywhere P (s, ps, qs)" and q: "P (aq_in_hand q)"
    and r: "addToQueue_resume N ev now q (s, ps) = (n, s', ps')"
  shows "everywhere P (s', ps', qs)" and "n = Some q' \<Longrightarrow> P (aq_in_hand q')"
proof -
  have c: "everywhere P (s1, ps1, qs)"
    if "react N Call (s0, ps) = (s1, ps1)" "persisted s0 = persisted s \<or> P (persisted s0)" for s0 s1 ps1
    using that w nil unfolding react_Call by (auto split: if_splits)
  have l: "P (loaded ok s)" for ok
    using w nil by (simp add: loaded_def)
  show "everywhere P (s', ps', qs)"
  proof (cases q)
    case (Aq_getItem d h)
    then show ?thesis
      using r w by (auto simp: addToQueue_resume_getItem simp del: addToQueue_resume.simps)
  next
    case (Aq_setItem queue)
    then have "P queue"
      using q by simp
    then show ?thesis
      using r w c [of "(did (SetItem queue) s)\<lparr>storage := Items queue\<rparr>" s' ps']
      by (auto simp: Aq_setItem addToQueue_resume_setItem simp del: addToQueue_resume.simps react.simps
          split: if_splits)
  next
    case Aq_fetch
    then show ?thesis
      using r w c [of "did Fetch s" s' ps']
      by (cases "aq_fetch ev")
         (auto simp: addToQueue_resume_fetch simp del: addToQueue_resume.simps react.simps)
  qed
  show "P (aq_in_hand q')" if "n = Some q'"
  proof (cases q)
    case (Aq_getItem d h)
    then show ?thesis
      using r that wr l
      by (auto simp: addToQueue_resume_getItem simp del: addToQueue_resume.simps)
  next
    case (Aq_setItem queue)
    then show ?thesis
      using r that nil
      by (auto simp: addToQueue_resume_setItem simp del: addToQueue_resume.simps react.simps
          split: if_splits)
  next
    case Aq_fetch
    then show ?thesis
      using r that
      by (cases "aq_fetch ev")
         (auto simp: addToQueue_resume_fetch simp del: addToQueue_resume.simps react.simps)
  qed
qed

lemma happen_everywhere:
  assumes nil: "P []"
    and kept: "\<forall>rem item rest. P (rem @ item # rest) \<longrightarrow> P (rem @ rest)"
    and bumped: "\<forall>rem item rest. P (rem @ item # rest) \<and> retryCount item < MAX_RETRY_COUNT
                   \<longrightarrow> P (rem @ item\<lparr>retryCount := retryCount item + 1\<rparr> # rest)"
    and wr: "\<forall>q d h now. P q \<longrightarrow> P (written q (new_item d h now))"
    and w: "everywhere P w"
  shows "everywhere P (happen N e w)"
proof -
  obtain s ps qs where w': "w = (s, ps, qs)"
    by (cases w) auto
  have w0: "everywhere P (s, ps, qs)"
    using w by (simp add: w')
  note re = react_everywhere [of P, OF nil kept bumped]
  have call: "everywhere P (s1, ps1, qs)"
    if "react N Call (s0, ps) = (s1, ps1)" "persisted s0 = persisted s" for s0 s1 ps1
  proof -
    have a: "everywhere P (s0, ps, qs)"
      using w0 that(2) by simp
    have b: "Call = Call \<or> Call = Settle 0 undefined"
      by simp
    show ?thesis
      using re [OF a b that(1)] .
  qed
  show ?thesis
  proof (cases e)
    case Calls_init
    obtain s1 ps1 where r: "react N Call (if N then (did AddEventListener s)\<lparr>networkUnsubscribe := True\<rparr> else s, ps) = (s1, ps1)"
      by (cases "react N Call (if N then (did AddEventListener s)\<lparr>networkUnsubscribe := True\<rparr> else s, ps)") auto
    have "everywhere P (s1, ps1, qs)"
      using r by (rule call) simp
    then show ?thesis
      using r by (simp add: w' Calls_init)
  next
    case (Calls_addToQueue d h)
    then show ?thesis
      using w0 nil by (simp add: w')
  next
    case Calls_processQueue
    obtain s1 ps1 where r: "react N Call (s, ps) = (s1, ps1)"
      by (cases "react N Call (s, ps)") auto
    have "everywhere P (s1, ps1, qs)"
      using r by (rule call) simp
    then show ?thesis
      using r by (simp add: w' Calls_processQueue)
  next
    case (Timeout_fires t)
    obtain s1 ps1 where r: "react N Call (s\<lparr>timeouts := removeAll t (timeouts s)\<rparr>, ps) = (s1, ps1)"
      by (cases "react N Call (s\<lparr>timeouts := removeAll t (timeouts s)\<rparr>, ps)") auto
    have "everywhere P (s1, ps1, qs)"
      using r by (rule call) simp
    then show ?thesis
      using r w0 by (simp add: w' Timeout_fires)
  next
    case (Network_changes b)
    obtain s1 ps1 where r: "react N Call (s, ps) = (s1, ps1)"
      by (cases "react N Call (s, ps)") auto
    have "everywhere P (s1, ps1, qs)"
      using r by (rule call) simp
    then show ?thesis
      using r w0 by (cases N) (simp_all add: w' Network_changes del: react.simps)
  next
    case (Pass_settles k ev)
    obtain s1 ps1 where r: "react N (Settle k ev) (s, ps) = (s1, ps1)"
      by (cases "react N (Settle k ev) (s, ps)") auto
    have "Settle k ev = Call \<or> Settle k ev = Settle k ev"
      by simp
    then have "everywhere P (s1, ps1, qs)"
      using re [OF w0 _ r] by simp
    then show ?thesis
      using r by (simp add: w' Pass_settles)
  next
    case (Add_settles k ev now)
    show ?thesis
    proof (cases "k < length qs")
      case True
      obtain n s1 ps1 where r: "addToQueue_resume N ev now (qs ! k) (s, ps) = (n, s1, ps1)"
        by (cases "addToQueue_resume N ev now (qs ! k) (s, ps)") auto
      have qk: "P (aq_in_hand (qs ! k))"
        using w0 True by simp
      note ar = addToQueue_resume_everywhere [of P, OF nil wr w0 qk r]
      show ?thesis
      proof (cases n)
        case None
        have "set (take k qs @ drop (Suc k) qs) \<subseteq> set qs"
          using set_take_subset [of k qs] set_drop_subset [of "Suc k" qs] by auto
        then have "everywhere P (s1, ps1, take k qs @ drop (Suc k) qs)"
          using ar(1) by auto
        then show ?thesis
          using True r None by (simp add: w' Add_settles)
      next
        case (Some q')
        have "set (qs[k := q']) \<subseteq> insert q' (set qs)"
          by (rule set_update_subset_insert)
        then have "everywhere P (s1, ps1, qs[k := q'])"
          using ar(1) ar(2) [OF Some] by auto
        then show ?thesis
          using True r Some by (simp add: w' Add_settles)
      qed
    next
      case False
      then show ?thesis
        using w0 by (simp add: w' Add_settles)
    qed
  qed
qed

lemma happens_everywhere:
  assumes nil: "P []"
    and kept: "\<forall>rem item rest. P (rem @ item # rest) \<longrightarrow> P (rem @ rest)"
    and bumped: "\<forall>rem item rest. P (rem @ item # rest) \<and> retryCount item < MAX_RETRY_COUNT
                   \<longrightarrow> P (rem @ item\<lparr>retryCount := retryCount item + 1\<rparr> # rest)"
    and wr: "\<forall>q d h now. P q \<longrightarrow> P (written q (new_item d h now))"
  shows "everywhere P w \<Longrightarrow> everywhere P (happens N es w)"
proof (induction es arbitrary: w)
  case Nil
  then show ?case by simp
next
  case (Cons e es)
  have "everywhere P (happen N e w)"
    using nil kept bumped wr Cons.prems by (rule happen_everywhere)
  then show ?case
    using Cons.IH by simp
qed

subsection \<open>The bound on the queue\<close>

lemma written_newest: "length q \<le> 50 \<Longrightarrow> written q x = newest 50 (q @ [x])"
proof (cases "length q = 50")
  case True
  then obtain a list where q: "q = a # list" and l: "length list = 49"
    by (cases q) auto
  show ?thesis
    by (simp add: written_def newest_def q l)
next
  case False
  assume "length q \<le> 50"
  with False have "length q < 50" by simp
  then show ?thesis
    by (simp add: written_def newest_def)
qed

lemma length_newest: "length (newest n xs) \<le> n"
  by (simp add: newest_def)

lemma newest_newest_append: "newest n (newest n xs @ ys) = newest n (xs @ ys)"
proof -
  have "length xs + length ys - (length xs - n + n) + (length xs - n) = length xs + length ys - n"
    by arith
  then show ?thesis
    by (simp add: newest_def)
qed

lemma length_written: "length q \<le> 50 \<Longrightarrow> length (written q x) \<le> 50"
  by (simp add: written_newest length_newest)

lemma happens_bound:
  assumes "length (persisted s) \<le> 50"
  shows "length (persisted (fst (happens N es (s, [], [])))) \<le> 50"
proof -
  have "everywhere (\<lambda>q. length q \<le> 50) (happens N es (s, [], []))"
    using assms by (intro happens_everywhere) (simp_all add: length_written)
  then show ?thesis
    by (cases "happens N es (s, [], [])") simp
qed

lemma awaited_call_offline:
  assumes "offline (fst c)"
  shows "\<exists>s'. happens True (awaited_call c) (s, ps, []) = (s', ps, [])
             \<and> persisted s' = written (persisted s) (item_of c)"
proof -
  obtain ev d h now where c: "c = (ev, d, h, now)"
    by (cases c) auto
  have o: "aq_read_ok ev" "aq_write_ok ev" "aq_fetch ev \<noteq> Connected"
    using assms by (simp_all add: c offline_def)
  show ?thesis
    using o
    by (cases "aq_fetch ev")
       (simp_all add: c addToQueue_resume_getItem addToQueue_resume_setItem addToQueue_resume_fetch
          loaded_def del: addToQueue_resume.simps react.simps)
qed

lemma awaited_calls_offline:
  assumes "\<forall>c\<in>set calls. offline (fst c)" "length (persisted s) \<le> 50"
  shows "\<exists>s'. happens True (concat (map awaited_call calls)) (s, ps, []) = (s', ps, [])
             \<and> persisted s' = newest 50 (persisted s @ map item_of calls)"
  using assms
proof (induction calls arbitrary: s)
  case Nil
  then show ?case by (simp add: newest_def)
next
  case (Cons c calls)
  obtain s1 where s1: "happens True (awaited_call c) (s, ps, []) = (s1, ps, [])"
      "persisted s1 = written (persisted s) (item_of c)"
    using awaited_call_offline [of c s ps] Cons.prems(1) by auto
  have p1: "persisted s1 = newest 50 (persisted s @ [item_of c])"
    using s1(2) Cons.prems(2) by (simp add: written_newest)
  obtain s' where s': "happens True (concat (map awaited_call calls)) (s1, ps, []) = (s', ps, [])"
      "persisted s' = newest 50 (persisted s1 @ map item_of calls)"
    using Cons.IH [of s1] Cons.prems(1) by (auto simp: p1 length_newest)
  show ?case
    using s1(1) s' by (simp add: happens_append p1 newest_newest_append del: awaited_call.simps)
qed

lemma addToQueue_resume_written:
  "aq_write_ok ev \<Longrightarrow>
     persisted (fst (snd (addToQueue_resume NetInfo ev now (Aq_setItem queue) (s, ps)))) = queue"
  by (simp add: addToQueue_resume_setItem react_Call did_def del: addToQueue_resume.simps react.simps)

text \<open>
  C1, as amended. Take an object with nothing in flight whose store holds at most 50
  items. Whatever happens to it and in whatever order (calls of its methods, timeouts,
  changes of the network state, promises that settle with any answer), the store never
  holds more than 50. When the read of an \<open>addToQueue\<close> call settles, the queue that
  the call goes on to write is the last 50 items of the queue it has just loaded
  followed by the new item: the new item is always in, and when that makes 51 it is the
  oldest loaded item that goes. When the write succeeds, that queue is what is stored.
  And when calls are awaited one after the other on an offline device whose store
  works, so that no pass and no other call writes in between, the stored queue after
  the calls is the last 50 of the old queue followed by all new items, and the passes
  in flight are as they were.
\<close>

theorem addToQueue_bounded_fifo:
  assumes "length (persisted s) \<le> 50"
  shows "length (persisted (fst (happens NetInfo events (s, [], [])))) \<le> 50
       \<and> addToQueue_resume NetInfo ev now (Aq_getItem d h) (s, ps) =
           (Some (Aq_setItem (newest 50 (loaded (aq_read_ok ev) s @ [new_item d h now]))),
            snd (getQueue (aq_read_ok ev) s), ps)
       \<and> (aq_write_ok ev \<longrightarrow>
            persisted (fst (snd (addToQueue_resume NetInfo ev now (Aq_setItem queue) (s, ps)))) = queue)
       \<and> ((\<forall>c\<in>set calls. offline (fst c)) \<longrightarrow>
            persisted (fst (happens True (concat (map awaited_call calls)) (s, ps, [])))
              = newest 50 (persisted s @ map item_of calls)
            \<and> snd (happens True (concat (map awaited_call calls)) (s, ps, [])) = (ps, []))"
proof (intro conjI impI)
  show "length (persisted (fst (happens NetInfo events (s, [], [])))) \<le> 50"
    using assms by (rule happens_bound)
next
  have l: "length (loaded (aq_read_ok ev) s) \<le> 50"
    using assms length_loaded [of "aq_read_ok ev" s] by simp
  show "addToQueue_resume NetInfo ev now (Aq_getItem d h) (s, ps) =
           (Some (Aq_setItem (newest 50 (loaded (aq_read_ok ev) s @ [new_item d h now]))),
            snd (getQueue (aq_read_ok ev) s), ps)"
    using l by (simp add: addToQueue_resume_getItem written_newest del: addToQueue_resume.simps)
next
  assume "aq_write_ok ev"
  then show "persisted (fst (snd (addToQueue_resume NetInfo ev now (Aq_setItem queue) (s, ps)))) = queue"
    by (rule addToQueue_resume_written)
next
  assume "\<forall>c\<in>set calls. offline (fst c)"
  then obtain s' where "happens True (concat (map awaited_call calls)) (s, ps, []) = (s', ps, [])"
      "persisted s' = newest 50 (persisted s @ map item_of calls)"
    using awaited_calls_offline [of calls s ps] assms by auto
  then show "persisted (fst (happens True (concat (map awaited_call calls)) (s, ps, [])))
      = newest 50 (persisted s @ map item_of calls)"
    "snd (happens True (concat (map awaited_call calls)) (s, ps, [])) = (ps, [])"
    by simp_all
qed

text \<open>
  Fifty-one awaited calls on an empty store, offline: the first item is gone, fifty
  remain.
\<close>

theorem addToQueue_bounded_fifo_witness:
  "length (persisted (constructor Absent)) \<le> 50
   \<and> persisted (fst (happens True (concat (map awaited_call (map offline_enqueue [0..<51])))
                        (constructor Absent, [], [])))
       = map (new_item ''loc'' ''hdr'') [1..<51]"
proof -
  have p: "persisted (constructor Absent) = []"
    by (simp add: persisted_def constructor_def)
  have o: "\<forall>c\<in>set (map offline_enqueue [0..<51]). offline (fst c)"
    by (simp add: offline_enqueue_def offline_def offline_call_def)
  have m: "item_of (offline_enqueue n) = new_item ''loc'' ''hdr'' n" for n
    by (simp add: offline_enqueue_def)
  show ?thesis
    using addToQueue_bounded_fifo [of "constructor Absent" True "[]" offline_call 0 "''loc''" "''hdr''"
        "[]" "[]" "map offline_enqueue [0..<51]"] o
    by (simp add: p m newest_def drop_map del: addToQueue_resume.simps)
qed

text \<open>
  The claim without the amendment fails in four ways. When the read fails, \<open>getQueue\<close>
  returns the empty queue, and \<open>addToQueue\<close> replaces three stored items by the new one
  alone. When the write fails, the new item is not stored. An item that is enqueued
  while a pass is in flight is overwritten when the pass saves what it has kept: \<open>a\<close>
  and then \<open>b\<close> are enqueued, each call awaited, the transport fails, and only \<open>a\<close> is
  stored afterwards. And of two calls that overlap, both load the queue before either
  writes, so the later write drops the item of the earlier one.
\<close>

theorem bounded_fifo_counterexample:
  "persisted (fst (happens True (awaited_call (offline_call\<lparr>aq_read_ok := False\<rparr>, ''D'', ''hdr'', 4))
                    (constructor (Items three_items), [], [])))
     = [new_item ''D'' ''hdr'' 4]
   \<and> persisted (fst (happens True (awaited_call (offline_call\<lparr>aq_write_ok := False\<rparr>, ''D'', ''hdr'', 4))
                    (constructor (Items three_items), [], [])))
     = three_items
   \<and> persisted (fst (happens False
       (awaited_call (failing_call, ''a'', ''hdr'', 1) @ [Pass_settles 0 failing_pass]
        @ awaited_call (failing_call, ''b'', ''hdr'', 2)
        @ [Pass_settles 0 failing_pass, Pass_settles 0 failing_pass])
       (constructor Absent, [], [])))
     = [(new_item ''a'' ''hdr'' 1)\<lparr>retryCount := 1\<rparr>]
   \<and> persisted (fst (happens True
       [Calls_addToQueue ''a'' ''hdr'', Calls_addToQueue ''b'' ''hdr'',
        Add_settles 0 offline_call 1, Add_settles 1 offline_call 2,
        Add_settles 0 offline_call 1, Add_settles 1 offline_call 2]
       (constructor Absent, [], [])))
     = [new_item ''b'' ''hdr'' 2]"
  by (simp add: world_evaluate evaluate offline_call_def failing_call_def failing_pass_def
      three_items_def)

subsection \<open>Retry counts\<close>

lemma aged_aged: "aged m (aged n q) = aged (m + n) q"
  by (induction q) (auto simp: aged_def add.assoc add.commute)

lemma aged_0: "\<forall>x\<in>set q. retry_ok x \<Longrightarrow> aged 0 q = q"
  by (induction q) (simp_all add: aged_def retry_ok_def)

lemma aged_retry_ok:
  "\<forall>x\<in>set q. retry_ok x \<Longrightarrow> \<forall>x\<in>set (aged n q). retry_ok x"
  by (auto simp: aged_def retry_ok_def)

lemma aged_all: "\<forall>x\<in>set q. retry_ok x \<Longrightarrow> int n = MAX_RETRY_COUNT + 1 \<Longrightarrow> aged n q = []"
  by (induction q) (auto simp: aged_def retry_ok_def)

lemma retained_retry_ok:
  "\<forall>x\<in>set q. retry_ok x \<Longrightarrow> \<forall>x\<in>set (retained sd i q). retry_ok x"
proof (induction q arbitrary: i)
  case Nil
  show ?case by simp
next
  case (Cons a q)
  have "retry_ok (a\<lparr>retryCount := retryCount a + 1\<rparr>)" if "retryCount a < MAX_RETRY_COUNT"
    using Cons.prems that by (simp add: retry_ok_def)
  then show ?case
    using Cons by simp
qed

lemma set_written: "set (written q x) \<subseteq> insert x (set q)"
  by (cases q) (auto simp: written_def)

lemma happens_retry_ok:
  assumes "within_retry_limit s"
  shows "within_retry_limit (fst (happens N es (s, [], [])))"
proof -
  have n: "retry_ok (new_item d h now)" for d h now
    by (simp add: retry_ok_def new_item_def MAX_RETRY_COUNT_def)
  have b: "retry_ok (item\<lparr>retryCount := retryCount item + 1\<rparr>)"
    if "retry_ok item" "retryCount item < MAX_RETRY_COUNT" for item
    using that by (simp add: retry_ok_def)
  have w: "\<forall>x\<in>set (written q (new_item d h now)). retry_ok x" if "\<forall>x\<in>set q. retry_ok x" for q d h now
    using that n [of d h now] set_written [of q "new_item d h now"] by auto
  have "everywhere (\<lambda>q. \<forall>x\<in>set q. retry_ok x) (happens N es (s, [], []))"
  proof (intro happens_everywhere)
    show "\<forall>q d h now. (\<forall>x\<in>set q. retry_ok x) \<longrightarrow> (\<forall>x\<in>set (written q (new_item d h now)). retry_ok x)"
      using w by blast
    show "everywhere (\<lambda>q. \<forall>x\<in>set q. retry_ok x) (s, [], [])"
      using assms by (simp add: within_retry_limit_def)
  qed (auto simp: b)
  then show ?thesis
    by (cases "happens N es (s, [], [])") (simp add: within_retry_limit_def)
qed

lemma retained_enumerate:
  "retained sd i q =
     map (\<lambda>(j, x). x\<lparr>retryCount := retryCount x + 1\<rparr>)
       (filter (\<lambda>(j, x). sd j \<noteq> Delivered \<and> retryCount x < MAX_RETRY_COUNT) (enumerate i q))"
  by (induction q arbitrary: i) simp_all

lemma effective_pass:
  assumes "\<not> isProcessing s" "effective NetInfo ev"
  shows "persisted (snd (processQueue NetInfo ev s)) = retained (send ev) 0 (persisted s)"
proof (cases "persisted s = []")
  case True
  then have "\<not> pass_runs NetInfo ev s"
    by (simp add: pass_runs_def loaded_def)
  then show ?thesis
    using True by (simp add: persisted_def processQueue_storage)
next
  case False
  then have "pass_runs NetInfo ev s" "loaded (read_ok ev) s = persisted s"
    using assms by (simp_all add: pass_runs_def loaded_def effective_def)
  then show ?thesis
    using assms
    by (simp add: persisted_def [of "snd (processQueue NetInfo ev s)"] processQueue_storage
        effective_def)
qed

lemma pass_not_saved:
  assumes "\<not> write_ok ev"
  shows "persisted (snd (processQueue NetInfo ev s)) = persisted s"
  using assms by (simp add: persisted_def processQueue_storage)

lemma filter_retained:
  assumes "\<forall>j<length q. identity_of (q ! j) = a \<longrightarrow> sd (i + j) \<noteq> Delivered"
  shows "filter (\<lambda>x. identity_of x = a) (retained sd i q) = aged 1 (filter (\<lambda>x. identity_of x = a) q)"
  using assms
proof (induction q arbitrary: i)
  case Nil
  show ?case by (simp add: aged_def)
next
  case (Cons x q)
  have b: "identity_of (x\<lparr>retryCount := c\<rparr>) = identity_of x" for c
    by (simp add: identity_of_def)
  have "\<forall>j<length q. identity_of (q ! j) = a \<longrightarrow> sd (Suc i + j) \<noteq> Delivered"
    using Cons.prems by auto
  then have ih: "filter (\<lambda>x. identity_of x = a) (retained sd (Suc i) q) =
      aged 1 (filter (\<lambda>x. identity_of x = a) q)"
    by (rule Cons.IH)
  have h: "identity_of x = a \<Longrightarrow> sd i \<noteq> Delivered"
    using Cons.prems by auto
  show ?case
    using h by (auto simp: ih b aged_def)
qed

lemma passes_always_fails:
  assumes "\<forall>ev\<in>set evs. effective NetInfo ev" "always_fails NetInfo a evs s"
    "\<not> isProcessing s" "\<forall>x\<in>set (persisted s). retry_ok x"
  shows "filter (\<lambda>x. identity_of x = a) (persisted (passes NetInfo evs s)) =
           aged (length evs) (filter (\<lambda>x. identity_of x = a) (persisted s))"
  using assms
proof (induction evs arbitrary: s)
  case Nil
  then show ?case by (simp add: aged_0)
next
  case (Cons ev evs)
  let ?s = "snd (processQueue NetInfo ev s)"
  have p: "persisted ?s = retained (send ev) 0 (persisted s)"
    using Cons.prems by (simp add: effective_pass)
  have f: "filter (\<lambda>x. identity_of x = a) (persisted ?s) =
      aged 1 (filter (\<lambda>x. identity_of x = a) (persisted s))"
    unfolding p using Cons.prems(2) by (intro filter_retained) simp
  have "filter (\<lambda>x. identity_of x = a) (persisted (passes NetInfo evs ?s)) =
      aged (length evs) (filter (\<lambda>x. identity_of x = a) (persisted ?s))"
    using Cons.prems retained_retry_ok [of "persisted s" "send ev" 0]
    by (intro Cons.IH) (simp_all add: processQueue_isProcessing p)
  then show ?case
    by (simp add: f aged_aged)
qed

text \<open>
  C2, as amended. A pass that is not cut short by the probe and that reads and writes
  the store successfully stores exactly this: the items, in their order, whose transport
  call did not deliver and whose count was below \<open>MAX_RETRY_COUNT\<close>, each with its count
  raised by one; an item is judged by its own transport call only. A pass that reaches
  its loop hands that same queue to \<open>setItem\<close>, and when the write fails the stored
  queue stays what it was. Over consecutive passes of the first kind, if every attempt
  to deliver the items with identity \<open>a\<close> fails (whatever becomes of the other items),
  then after \<open>n\<close> passes these items are stored with their counts raised by \<open>n\<close>, as
  long as the count stays within the limit, and after \<open>MAX_RETRY_COUNT + 1\<close> passes none
  of them is stored. And on an object with nothing in flight whose stored counts are
  between 0 and \<open>MAX_RETRY_COUNT\<close>, they stay so whatever happens, in whatever order
  and with whatever answers.
\<close>

theorem processQueue_retry_policy:
  assumes "\<not> isProcessing s" "within_retry_limit s"
  shows "(effective NetInfo ev \<longrightarrow>
            persisted (snd (processQueue NetInfo ev s)) =
              map (\<lambda>(i, x). x\<lparr>retryCount := retryCount x + 1\<rparr>)
                (filter (\<lambda>(i, x). send ev i \<noteq> Delivered \<and> retryCount x < MAX_RETRY_COUNT)
                   (enumerate 0 (persisted s))))
       \<and> (pass_runs NetInfo ev s \<longrightarrow>
            SetItem (map (\<lambda>(i, x). x\<lparr>retryCount := retryCount x + 1\<rparr>)
                      (filter (\<lambda>(i, x). send ev i \<noteq> Delivered \<and> retryCount x < MAX_RETRY_COUNT)
                         (enumerate 0 (persisted s))))
              \<in> set (effects (snd (processQueue NetInfo ev s)))
            \<and> (\<not> write_ok ev \<longrightarrow> persisted (snd (processQueue NetInfo ev s)) = persisted s))
       \<and> ((\<forall>ev\<in>set evs. effective NetInfo ev) \<and> always_fails NetInfo a evs s \<longrightarrow>
            filter (\<lambda>x. identity_of x = a) (persisted (passes NetInfo evs s)) =
              aged (length evs) (filter (\<lambda>x. identity_of x = a) (persisted s))
            \<and> (int (length evs) = MAX_RETRY_COUNT + 1 \<longrightarrow>
                 a \<notin> identity_of ` set (persisted (passes NetInfo evs s))))
       \<and> within_retry_limit (fst (happens NetInfo events (s, [], [])))"
proof (intro conjI impI)
  assume "effective NetInfo ev"
  with assms(1) have "persisted (snd (processQueue NetInfo ev s)) = retained (send ev) 0 (persisted s)"
    by (rule effective_pass)
  also have "\<dots> = map (\<lambda>(i, x). x\<lparr>retryCount := retryCount x + 1\<rparr>)
        (filter (\<lambda>(i, x). send ev i \<noteq> Delivered \<and> retryCount x < MAX_RETRY_COUNT)
           (enumerate 0 (persisted s)))"
    by (rule retained_enumerate)
  finally show "persisted (snd (processQueue NetInfo ev s)) =
      map (\<lambda>(i, x). x\<lparr>retryCount := retryCount x + 1\<rparr>)
        (filter (\<lambda>(i, x). send ev i \<noteq> Delivered \<and> retryCount x < MAX_RETRY_COUNT)
           (enumerate 0 (persisted s)))" .
next
  assume "pass_runs NetInfo ev s"
  then have "SetItem (retained (send ev) 0 (persisted s)) \<in> set (effects (snd (processQueue NetInfo ev s)))"
    by (rule processQueue_saves)
  then show "SetItem (map (\<lambda>(i, x). x\<lparr>retryCount := retryCount x + 1\<rparr>)
                      (filter (\<lambda>(i, x). send ev i \<noteq> Delivered \<and> retryCount x < MAX_RETRY_COUNT)
                         (enumerate 0 (persisted s))))
              \<in> set (effects (snd (processQueue NetInfo ev s)))"
    unfolding retained_enumerate .
next
  assume "\<not> write_ok ev"
  then show "persisted (snd (processQueue NetInfo ev s)) = persisted s"
    by (rule pass_not_saved)
next
  assume e: "(\<forall>ev\<in>set evs. effective NetInfo ev) \<and> always_fails NetInfo a evs s"
  have q: "\<forall>x\<in>set (persisted s). retry_ok x"
    using assms(2) by (simp add: within_retry_limit_def)
  show f: "filter (\<lambda>x. identity_of x = a) (persisted (passes NetInfo evs s)) =
      aged (length evs) (filter (\<lambda>x. identity_of x = a) (persisted s))"
    using e assms(1) q by (intro passes_always_fails) simp_all
  show "a \<notin> identity_of ` set (persisted (passes NetInfo evs s))"
    if "int (length evs) = MAX_RETRY_COUNT + 1"
  proof -
    have "aged (length evs) (filter (\<lambda>x. identity_of x = a) (persisted s)) = []"
      using that q by (intro aged_all) simp_all
    then have "filter (\<lambda>x. identity_of x = a) (persisted (passes NetInfo evs s)) = []"
      by (simp only: f)
    then show ?thesis
      by (auto simp: filter_empty_conv)
  qed
next
  show "within_retry_limit (fst (happens NetInfo events (s, [], [])))"
    using assms(2) by (rule happens_retry_ok)
qed

text \<open>
  Three items; in the first pass the attempt on \<open>A\<close> reports an error, \<open>B\<close> is
  delivered and the attempt on \<open>C\<close> throws; in the later passes every attempt reports
  an error. \<open>A\<close> and \<open>C\<close> are kept with count 1 by the first pass; after three passes
  \<open>A\<close> is stored with count 3, after the fourth it is gone.
\<close>

theorem processQueue_retry_policy_witness:
  "\<not> isProcessing (constructor (Items three_items))
   \<and> persisted (snd (processQueue False mixed_pass (constructor (Items three_items))))
       = [(new_item ''A'' ''hdr'' 1)\<lparr>retryCount := 1\<rparr>, (new_item ''C'' ''hdr'' 3)\<lparr>retryCount := 1\<rparr>]
   \<and> filter (\<lambda>x. identity_of x = (''A'', ''hdr'', 1))
        (persisted (passes False [mixed_pass, failing_pass, failing_pass]
                      (constructor (Items three_items))))
       = [(new_item ''A'' ''hdr'' 1)\<lparr>retryCount := 3\<rparr>]
   \<and> (''A'', ''hdr'', 1) \<notin> identity_of ` set
        (persisted (passes False [mixed_pass, failing_pass, failing_pass, failing_pass]
                      (constructor (Items three_items))))"
proof -
  let ?s = "constructor (Items three_items)"
  let ?a = "(''A'', ''hdr'', 1::nat)"
  have i: "\<not> isProcessing ?s"
    by (simp add: constructor_def)
  have p: "persisted ?s = three_items"
    by (simp add: persisted_def constructor_def)
  have r: "within_retry_limit ?s"
    unfolding within_retry_limit_def p
    by (simp add: three_items_def retry_ok_def new_item_def MAX_RETRY_COUNT_def)
  have e: "effective False mixed_pass" "effective False failing_pass"
    by (simp_all add: effective_def mixed_pass_def failing_pass_def)
  have f4: "always_fails False ?a [mixed_pass, failing_pass, failing_pass, failing_pass] ?s"
    by (simp add: evaluate three_items_def identity_of_def mixed_pass_def failing_pass_def
        answers_def All_less_Suc)
  then have f3: "always_fails False ?a [mixed_pass, failing_pass, failing_pass] ?s"
    by simp
  have a: "filter (\<lambda>x. identity_of x = ?a) three_items = [new_item ''A'' ''hdr'' 1]"
    by (simp add: three_items_def identity_of_def new_item_def)
  have g: "aged 3 [new_item ''A'' ''hdr'' 1] = [(new_item ''A'' ''hdr'' 1)\<lparr>retryCount := 3\<rparr>]"
    by (simp add: aged_def new_item_def MAX_RETRY_COUNT_def)
  have m: "map (\<lambda>(i, x). x\<lparr>retryCount := retryCount x + 1\<rparr>)
        (filter (\<lambda>(i, x). send mixed_pass i \<noteq> Delivered \<and> retryCount x < MAX_RETRY_COUNT)
           (enumerate 0 three_items))
      = [(new_item ''A'' ''hdr'' 1)\<lparr>retryCount := 1\<rparr>, (new_item ''C'' ''hdr'' 3)\<lparr>retryCount := 1\<rparr>]"
    by (simp add: three_items_def mixed_pass_def answers_def new_item_def MAX_RETRY_COUNT_def)
  have l: "length [mixed_pass, failing_pass, failing_pass] = 3"
      "int (length [mixed_pass, failing_pass, failing_pass, failing_pass]) = MAX_RETRY_COUNT + 1"
    by (simp_all add: MAX_RETRY_COUNT_def)
  have h: "\<forall>ev\<in>set [mixed_pass, failing_pass, failing_pass]. effective False ev"
      "\<forall>ev\<in>set [mixed_pass, failing_pass, failing_pass, failing_pass]. effective False ev"
    using e by simp_all
  have "persisted (snd (processQueue False mixed_pass ?s)) =
      map (\<lambda>(i, x). x\<lparr>retryCount := retryCount x + 1\<rparr>)
        (filter (\<lambda>(i, x). send mixed_pass i \<noteq> Delivered \<and> retryCount x < MAX_RETRY_COUNT)
           (enumerate 0 (persisted ?s)))"
    using processQueue_retry_policy [OF i r, of False mixed_pass "[]" ?a "[]"] e(1) by blast
  then have c1: "persisted (snd (processQueue False mixed_pass ?s))
      = [(new_item ''A'' ''hdr'' 1)\<lparr>retryCount := 1\<rparr>, (new_item ''C'' ''hdr'' 3)\<lparr>retryCount := 1\<rparr>]"
    by (simp only: p m)
  have "filter (\<lambda>x. identity_of x = ?a)
        (persisted (passes False [mixed_pass, failing_pass, failing_pass] ?s))
      = aged (length [mixed_pass, failing_pass, failing_pass])
          (filter (\<lambda>x. identity_of x = ?a) (persisted ?s))"
    using processQueue_retry_policy
            [OF i r, of False mixed_pass "[mixed_pass, failing_pass, failing_pass]" ?a "[]"] h(1) f3
    by blast
  then have c2: "filter (\<lambda>x. identity_of x = ?a)
        (persisted (passes False [mixed_pass, failing_pass, failing_pass] ?s))
      = [(new_item ''A'' ''hdr'' 1)\<lparr>retryCount := 3\<rparr>]"
    by (simp only: l p a g)
  have c3: "?a \<notin> identity_of ` set
        (persisted (passes False [mixed_pass, failing_pass, failing_pass, failing_pass] ?s))"
    using processQueue_retry_policy
            [OF i r, of False mixed_pass "[mixed_pass, failing_pass, failing_pass, failing_pass]" ?a "[]"]
          h(2) f4 l(2)
    by blast
  show ?thesis
    using i c1 c2 c3 by (simp only: simp_thms)
qed

text \<open>
  The claim without the amendment fails when the store rejects the write of each pass:
  the item is sent four times, every attempt fails, and it is still persisted, with
  count 0.
\<close>

theorem retry_policy_counterexample:
  "persisted (passes False [unsaved_pass, unsaved_pass, unsaved_pass, unsaved_pass]
                (constructor (Items [new_item ''loc'' ''hdr'' 7])))
     = [new_item ''loc'' ''hdr'' 7]
   \<and> attempts (effects (passes False [unsaved_pass, unsaved_pass, unsaved_pass, unsaved_pass]
                (constructor (Items [new_item ''loc'' ''hdr'' 7]))))
     = [new_item ''loc'' ''hdr'' 7, new_item ''loc'' ''hdr'' 7, new_item ''loc'' ''hdr'' 7,
        new_item ''loc'' ''hdr'' 7]"
  by (simp add: evaluate unsaved_pass_def)

text \<open>
  Two scenarios on one new item. The transport delivers: the queue is empty after one
  pass. The transport fails twice and then delivers: the item is kept with count 1,
  then with count 2, then dropped.
\<close>

lemma scenario_delivered:
  "persisted (passes False [working_pass] (constructor (Items [new_item ''loc'' ''hdr'' 7]))) = []"
  by (simp add: evaluate working_pass_def)

lemma scenario_fails_twice:
  "persisted (passes False [failing_pass] (constructor (Items [new_item ''loc'' ''hdr'' 7])))
     = [(new_item ''loc'' ''hdr'' 7)\<lparr>retryCount := 1\<rparr>]"
  "persisted (passes False [failing_pass, failing_pass]
                (constructor (Items [new_item ''loc'' ''hdr'' 7])))
     = [(new_item ''loc'' ''hdr'' 7)\<lparr>retryCount := 2\<rparr>]"
  "persisted (passes False [failing_pass, failing_pass, working_pass]
                (constructor (Items [new_item ''loc'' ''hdr'' 7]))) = []"
  by (simp_all add: evaluate working_pass_def failing_pass_def)

subsection \<open>Order of delivery\<close>

lemma attempts_append [simp]: "attempts (xs @ ys) = attempts xs @ attempts ys"
  by (induction xs rule: attempts.induct) simp_all

lemma attempts_map_Send [simp]: "attempts (map Send q) = q"
  by (induction q) simp_all

lemma processQueue_attempts:
  "attempts (effects (snd (processQueue NetInfo ev s))) =
     attempts (effects s) @ (if pass_runs NetInfo ev s then persisted s else [])"
  by (cases "fetch ev")
     (auto simp add: processQueue_unfold scheduleRetry_eq pass_runs_def loaded_def
        split: option.splits)

lemma subseq_retained:
  "subseq (map identity_of (retained sd i q)) (map identity_of q)"
  by (induction q arbitrary: i) (auto simp: identity_of_def)

lemma processQueue_survivors:
  "subseq (map identity_of (persisted (snd (processQueue NetInfo ev s))))
          (map identity_of (persisted s))"
proof (cases "pass_runs NetInfo ev s \<and> write_ok ev")
  case True
  then have "loaded (read_ok ev) s = persisted s"
    by (auto simp: pass_runs_def loaded_def split: if_splits)
  then show ?thesis
    using True subseq_retained [of "send ev" 0 "persisted s"]
    by (simp add: persisted_def [of "snd (processQueue NetInfo ev s)"] processQueue_storage)
next
  case False
  then show ?thesis
    by (auto simp add: persisted_def processQueue_storage)
qed

lemma passes_survivors:
  "subseq (map identity_of (persisted (passes NetInfo evs s))) (map identity_of (persisted s))"
proof (induction evs arbitrary: s)
  case Nil
  show ?case by simp
next
  case (Cons ev evs)
  show ?case
    using Cons.IH [of "snd (processQueue NetInfo ev s)"] processQueue_survivors [of NetInfo ev s]
    by (auto intro: subseq_order.trans)
qed

text \<open>
  C3. A pass that reaches its loop sends the persisted items to the transport in the
  order of the persisted queue, each once; a pass that does not reach it sends nothing.
  And whatever the answers, the items persisted after any number of passes are, in the
  same relative order, among the items persisted before: survivors are never reordered.
\<close>

theorem processQueue_fifo:
  "attempts (effects (snd (processQueue NetInfo ev s))) =
     attempts (effects s) @ (if pass_runs NetInfo ev s then persisted s else [])
   \<and> subseq (map identity_of (persisted (passes NetInfo evs s))) (map identity_of (persisted s))"
  by (simp only: processQueue_attempts passes_survivors simp_thms)

text \<open>
  Three items; the first attempt reports an error, the second delivers, the third
  throws.
\<close>

theorem processQueue_fifo_witness:
  "pass_runs False mixed_pass (constructor (Items three_items))
   \<and> attempts (effects (snd (processQueue False mixed_pass (constructor (Items three_items)))))
       = three_items
   \<and> subseq (map identity_of (persisted (passes False [mixed_pass, mixed_pass]
                                              (constructor (Items three_items)))))
             [(''A'', ''hdr'', 1), (''B'', ''hdr'', 2), (''C'', ''hdr'', 3)]"
proof -
  let ?s = "constructor (Items three_items)"
  have r: "pass_runs False mixed_pass ?s"
    by (simp add: pass_runs_def loaded_def persisted_def constructor_def mixed_pass_def
        three_items_def)
  have p: "persisted ?s = three_items" and e: "effects ?s = []"
    by (simp_all add: persisted_def constructor_def)
  have i: "map identity_of three_items = [(''A'', ''hdr'', 1), (''B'', ''hdr'', 2), (''C'', ''hdr'', 3)]"
    by (simp add: three_items_def identity_of_def new_item_def)
  show ?thesis
    using processQueue_fifo [of False mixed_pass ?s "[mixed_pass, mixed_pass]"] r
    by (simp add: p e i)
qed

subsection \<open>One pass at a time\<close>

lemma processQueue_resume_flag:
  "isProcessing (snd (processQueue_resume ev p s)) =
     (isProcessing s \<and> fst (processQueue_resume ev p s) \<noteq> None)"
proof (cases p)
  case At_fetch
  then show ?thesis
    by (cases "fetch ev") (simp_all add: NetInfo_fetch_def catch_and_finally_def did_def)
next
  case At_getItem
  then show ?thesis
    by (simp add: getQueue_eq split: list.splits)
next
  case (At_logsApi i item rest rem)
  then show ?thesis
    by (simp add: process_item_eq split: list.splits)
next
  case (At_setItem rem)
  then show ?thesis
    by (simp add: saveQueue_eq)
qed

lemma react_single_flight:
  assumes "single_flight c"
  shows "single_flight (react NetInfo e c)"
proof -
  obtain s ps where c: "c = (s, ps)"
    by (cases c) auto
  show ?thesis
  proof (cases e)
    case Call
    then show ?thesis
      using assms by (auto simp: c single_flight_def processQueue_start_def)
  next
    case (Settle k ev)
    show ?thesis
    proof (cases "k < length ps")
      case True
      then obtain p where ps: "ps = [p]" and k: "k = 0"
        using assms by (cases ps) (auto simp: c single_flight_def)
      have "isProcessing s"
        using assms by (simp add: c ps single_flight_def)
      then show ?thesis
        using processQueue_resume_flag [of ev p s]
        by (cases "processQueue_resume ev p s")
           (auto simp: c ps k Settle single_flight_def split: option.splits)
    next
      case False
      then show ?thesis
        using assms by (simp add: c Settle)
    qed
  next
    case (Write q)
    then show ?thesis
      using assms by (simp add: c single_flight_def)
  qed
qed

lemma reacts_single_flight:
  "single_flight c \<Longrightarrow> single_flight (reacts NetInfo es c)"
  by (induction es arbitrary: c) (simp_all add: react_single_flight)

lemma drive_None [simp]: "drive ev n (None, s) = (None, s)"
  by (cases n) simp_all

lemma drive_loop:
  "drive ev (Suc (length rest) + k) (Some (At_logsApi i item rest rem), s) =
     (case process_items (send ev) i (item # rest) rem s of
        (Inl e, s') \<Rightarrow> (None, catch_and_finally s')
      | (Inr r, s') \<Rightarrow> drive ev k (Some (At_setItem r), s'))"
proof (induction rest arbitrary: i item rem s)
  case Nil
  show ?case
    by (simp add: process_item_eq and_then_def)
next
  case (Cons item' rest)
  obtain r1 s1 where p: "process_item (send ev i) item rem s = (Inr r1, s1)"
    by (simp add: process_item_eq)
  have a: "processQueue_resume ev (At_logsApi i item (item' # rest) rem) s =
             (Some (At_logsApi (Suc i) item' rest r1), s1)"
    by (simp add: p)
  have b: "process_items (send ev) i (item # item' # rest) rem s =
             process_items (send ev) (Suc i) (item' # rest) r1 s1"
    by (subst process_items.simps) (simp add: p and_then_def del: process_items.simps)
  have "drive ev (Suc (length (item' # rest)) + k) (Some (At_logsApi i item (item' # rest) rem), s) =
          drive ev (Suc (length rest) + k) (processQueue_resume ev (At_logsApi i item (item' # rest) rem) s)"
    using drive.simps(3) [of ev "Suc (length rest) + k" "At_logsApi i item (item' # rest) rem" s]
    by simp
  also have "\<dots> = drive ev (Suc (length rest) + k) (Some (At_logsApi (Suc i) item' rest r1), s1)"
    by (simp only: a)
  also have "\<dots> = (case process_items (send ev) (Suc i) (item' # rest) r1 s1 of
        (Inl e, s') \<Rightarrow> (None, catch_and_finally s')
      | (Inr r, s') \<Rightarrow> drive ev k (Some (At_setItem r), s'))"
    by (rule Cons.IH)
  finally show ?case
    by (simp only: b)
qed

lemma drive_from_getItem:
  assumes "length (loaded (read_ok ev) s) + 2 \<le> n"
  shows "drive ev n (Some At_getItem, s) =
     (None,
      snd (and_then (getQueue (read_ok ev) s) (\<lambda>queue s.
              if length queue = 0 then (Inr (), s\<lparr>isProcessing := False\<rparr>)
              else
                and_then (process_items (send ev) 0 queue [] s) (\<lambda>remainingItems s.
                  and_then (saveQueue (write_ok ev) remainingItems s) (\<lambda>_ s.
                    if length remainingItems > 0 then (Inr (), scheduleRetry s)
                    else (Inr (), s)))))
        \<lparr>isProcessing := False\<rparr>)"
proof (cases "loaded (read_ok ev) s")
  case Nil
  obtain m where n: "n = Suc m"
    using assms by (cases n) auto
  show ?thesis
    by (simp add: n getQueue_eq Nil and_then_def)
next
  case (Cons item rest)
  obtain k where n: "n = Suc (Suc (length rest) + Suc k)"
    using assms Cons by (cases n) (auto simp: le_Suc_eq dest!: le_Suc_ex)
  obtain s1 where g: "getQueue (read_ok ev) s = (Inr (item # rest), s1)"
    by (simp add: getQueue_eq Cons)
  obtain r s2 where l: "process_items (send ev) 0 (item # rest) [] s1 = (Inr r, s2)"
    by (simp only: process_items_eq)
  obtain s3 where w: "saveQueue (write_ok ev) r s2 = (Inr (), s3)"
    by (simp only: saveQueue_eq)
  have "drive ev n (Some At_getItem, s) =
          drive ev (Suc (length rest) + Suc k) (processQueue_resume ev At_getItem s)"
    by (simp only: n drive.simps)
  also have "\<dots> = drive ev (Suc (length rest) + Suc k) (Some (At_logsApi 0 item rest []), s1)"
    by (simp add: g del: drive.simps)
  also have "\<dots> = drive ev (Suc k) (Some (At_setItem r), s2)"
    by (simp only: drive_loop l sum.case prod.case)
  also have "\<dots> = (None, (if length r > 0 then scheduleRetry s3 else s3)\<lparr>isProcessing := False\<rparr>)"
    by (simp add: w)
  finally show ?thesis
    by (simp add: g l w and_then_def del: process_items.simps)
qed

lemma try_catch_Inr: "fst r = Inr v \<Longrightarrow> try_catch r h = r"
  by (cases r) (simp add: try_catch_def)

lemma load_and_process_returns:
  "fst (and_then (getQueue ok s) (\<lambda>queue s.
          if length queue = 0 then (Inr (), s\<lparr>isProcessing := False\<rparr>)
          else
            and_then (process_items sd 0 queue [] s) (\<lambda>remainingItems s.
              and_then (saveQueue wok remainingItems s) (\<lambda>_ s.
                if length remainingItems > 0 then (Inr (), scheduleRetry s)
                else (Inr (), s))))) = Inr ()"
  by (simp add: getQueue_eq process_items_eq saveQueue_eq and_then_def)

lemma async_agrees:
  "drive ev (length (persisted s) + 3) (processQueue_start NetInfo s) =
     (None, snd (processQueue NetInfo ev s))"
proof (cases "isProcessing s")
  case True
  then show ?thesis
    by (simp add: processQueue_start_def processQueue_def)
next
  case False
  let ?s = "s\<lparr>isProcessing := True\<rparr>"
  show ?thesis
  proof (cases "NetInfo \<and> fetch ev \<noteq> Connected")
    case True
    then show ?thesis
      using False
      by (cases "fetch ev")
         (simp_all add: processQueue_start_def processQueue_def processQueue_try_def
            NetInfo_fetch_def and_then_def try_catch_def catch_and_finally_def
            eval_nat_numeral)
  next
    case c: False
    let ?s1 = "if NetInfo then did Fetch ?s else ?s"
    have t: "processQueue_try NetInfo ev ?s =
        and_then (getQueue (read_ok ev) ?s1) (\<lambda>queue s.
          if length queue = 0 then (Inr (), s\<lparr>isProcessing := False\<rparr>)
          else
            and_then (process_items (send ev) 0 queue [] s) (\<lambda>remainingItems s.
              and_then (saveQueue (write_ok ev) remainingItems s) (\<lambda>_ s.
                if length remainingItems > 0 then (Inr (), scheduleRetry s)
                else (Inr (), s))))"
      using c by (simp add: processQueue_try_def NetInfo_fetch_def and_then_def)
    have s1: "persisted ?s1 = persisted s"
      by (simp add: did_def)
    have "drive ev (length (persisted s) + 3) (processQueue_start NetInfo s) =
            (None, (snd (processQueue_try NetInfo ev ?s))\<lparr>isProcessing := False\<rparr>)"
    proof (cases NetInfo)
      case True
      then have r: "processQueue_resume ev At_fetch ?s = (Some At_getItem, ?s1)"
        using c by (simp add: NetInfo_fetch_def)
      have f: "length (persisted s) + 3 = Suc (length (persisted s) + 2)"
        by simp
      have "drive ev (length (persisted s) + 3) (processQueue_start NetInfo s) =
              drive ev (Suc (length (persisted s) + 2)) (Some At_fetch, ?s)"
        using False True by (simp only: f processQueue_start_def if_False if_True)
      also have "\<dots> = drive ev (length (persisted s) + 2) (Some At_getItem, ?s1)"
        by (simp only: drive.simps r)
      also have "\<dots> = (None, (snd (processQueue_try NetInfo ev ?s))\<lparr>isProcessing := False\<rparr>)"
        unfolding t by (rule drive_from_getItem) (simp add: loaded_def s1)
      finally show ?thesis .
    next
      case N: False
      have "drive ev (length (persisted s) + 3) (processQueue_start NetInfo s) =
              drive ev (length (persisted s) + 3) (Some At_getItem, ?s1)"
        using False N by (simp only: processQueue_start_def if_False)
      also have "\<dots> = (None, (snd (processQueue_try NetInfo ev ?s))\<lparr>isProcessing := False\<rparr>)"
        unfolding t by (rule drive_from_getItem) (simp add: loaded_def s1)
      finally show ?thesis .
    qed
    also have "\<dots> = (None, snd (processQueue NetInfo ev s))"
    proof -
      have "fst (processQueue_try NetInfo ev ?s) = Inr ()"
        unfolding t by (rule load_and_process_returns)
      then have "try_catch (processQueue_try NetInfo ev ?s) h = processQueue_try NetInfo ev ?s" for h
        by (rule try_catch_Inr)
      then show ?thesis
        using False by (simp add: processQueue_def split_beta)
    qed
    finally show ?thesis .
  qed
qed

text \<open>
  C4. While the flag is set, a call of \<open>processQueue\<close> returns at once and changes
  nothing: the state after it is the state before it, so no transport call, no store
  read or write and no timer call is made, and no new pass is in flight. Hence, from an
  object whose flag is clear, whatever calls come in and in whatever order the awaited
  promises settle, at most one pass is ever in flight, and the flag is set exactly
  while one is.
\<close>

theorem processQueue_busy:
  "(isProcessing s \<longrightarrow>
      processQueue NetInfo ev s = (Inr (), s) \<and> react NetInfo Call (s, ps) = (s, ps))
   \<and> (\<not> isProcessing s0 \<longrightarrow> single_flight (reacts NetInfo events (s0, [])))"
proof (intro conjI impI)
  assume "isProcessing s"
  then show "processQueue NetInfo ev s = (Inr (), s)" "react NetInfo Call (s, ps) = (s, ps)"
    by (simp_all add: processQueue_def processQueue_start_def)
next
  assume "\<not> isProcessing s0"
  then have "single_flight (s0, [])"
    by (simp add: single_flight_def)
  then show "single_flight (reacts NetInfo events (s0, []))"
    by (rule reacts_single_flight)
qed

text \<open>
  A call on a busy object, and three calls on an idle one with a settled promise in
  between.
\<close>

theorem processQueue_busy_witness:
  "isProcessing busy
   \<and> processQueue False mixed_pass busy = (Inr (), busy)
   \<and> react False Call (busy, [At_getItem]) = (busy, [At_getItem])
   \<and> \<not> isProcessing (constructor (Items three_items))
   \<and> single_flight (reacts False [Call, Call, Settle 0 mixed_pass, Call]
                       (constructor (Items three_items), []))"
  using processQueue_busy [of busy False mixed_pass "[At_getItem]" "constructor (Items three_items)"
      "[Call, Call, Settle 0 mixed_pass, Call]"]
  by (simp add: busy_def constructor_def)

text \<open>
  C9. A call of \<open>processQueue\<close> that finds the flag clear returns normally and leaves
  the flag clear, whatever the probe, the store and the transport answer: on the
  connectivity abort, on an empty queue, after the loop, and when the \<open>try\<close> block throws.
  Run as a task, the pass ends after at most three settled promises more than there are
  persisted items, in that same state.
\<close>

theorem processQueue_clears_flag:
  "\<not> isProcessing s \<Longrightarrow>
     fst (processQueue NetInfo ev s) = Inr ()
     \<and> \<not> isProcessing (snd (processQueue NetInfo ev s))
     \<and> drive ev (length (persisted s) + 3) (processQueue_start NetInfo s) =
         (None, snd (processQueue NetInfo ev s))"
  by (simp add: processQueue_returns processQueue_isProcessing async_agrees)

theorem processQueue_clears_flag_witness:
  "\<not> isProcessing (constructor (Items three_items))
   \<and> fst (processQueue True (mixed_pass\<lparr>fetch := ProbeRejects\<rparr>) (constructor (Items three_items)))
       = Inr ()
   \<and> \<not> isProcessing (snd (processQueue True (mixed_pass\<lparr>fetch := ProbeRejects\<rparr>)
                                (constructor (Items three_items))))"
  using processQueue_clears_flag
          [of "constructor (Items three_items)" True "mixed_pass\<lparr>fetch := ProbeRejects\<rparr>"]
  by (simp add: constructor_def)

text \<open>
  C7. A pass that loads an empty queue (nothing stored, an empty array, a text that
  does not parse, or a failed read) returns without having written the store and
  without having set or cleared a timeout: the stored value, the pending timeouts, the
  held handle and the next handle are what they were, the flag is clear, and the only
  calls made are the probe (when NetInfo is there) and the read.
\<close>

theorem processQueue_empty_noop:
  assumes "\<not> isProcessing s" "NetInfo \<longrightarrow> fetch ev = Connected" "loaded (read_ok ev) s = []"
  shows "fst (processQueue NetInfo ev s) = Inr ()
       \<and> storage (snd (processQueue NetInfo ev s)) = storage s
       \<and> timeouts (snd (processQueue NetInfo ev s)) = timeouts s
       \<and> retryTimer (snd (processQueue NetInfo ev s)) = retryTimer s
       \<and> next_handle (snd (processQueue NetInfo ev s)) = next_handle s
       \<and> \<not> isProcessing (snd (processQueue NetInfo ev s))
       \<and> effects (snd (processQueue NetInfo ev s)) =
           effects s @ (if NetInfo then [Fetch] else []) @ [GetItem]"
  using assms by (simp add: processQueue_unfold)

theorem processQueue_empty_noop_witness:
  "\<not> isProcessing (constructor Absent)
   \<and> fetch working_pass = Connected
   \<and> loaded (read_ok working_pass) (constructor Absent) = []
   \<and> storage (snd (processQueue True working_pass (constructor Absent))) = Absent
   \<and> timeouts (snd (processQueue True working_pass (constructor Absent))) = []
   \<and> effects (snd (processQueue True working_pass (constructor Absent))) = [Fetch, GetItem]"
proof -
  have a: "\<not> isProcessing (constructor Absent)"
    and b: "True \<longrightarrow> fetch working_pass = Connected"
    and c: "loaded (read_ok working_pass) (constructor Absent) = []"
    by (simp_all add: constructor_def working_pass_def loaded_def persisted_def)
  show ?thesis
    using processQueue_empty_noop [OF a b c] a b c
    by (simp add: constructor_def)
qed

subsection \<open>Errors\<close>

lemma retained_reported: "retained (reported sd) i q = retained sd i q"
  by (induction q arbitrary: i) (simp_all add: reported_def)

lemma processQueue_reported:
  "without_console (snd (processQueue NetInfo (ev\<lparr>send := reported (send ev)\<rparr>) s)) =
   without_console (snd (processQueue NetInfo ev s))"
  by (cases "fetch ev") (simp_all add: processQueue_unfold retained_reported)

text \<open>
  C5. When the transport call throws, the loop does with the item what it does when the
  call reports an error: the item is kept with its count raised by one when the count
  was below \<open>MAX_RETRY_COUNT\<close> and dropped otherwise; the two cases differ only by a
  line on the console. A whole pass returns normally, and replacing every exception of
  the transport by a reported error changes nothing in the state it leaves, the
  console aside.
\<close>

theorem transport_exception_as_failure:
  "fst (process_item Throws item rem s) =
     Inr (if retryCount item < MAX_RETRY_COUNT
          then rem @ [item\<lparr>retryCount := retryCount item + 1\<rparr>] else rem)
   \<and> fst (process_item Throws item rem s) = fst (process_item ReportsError item rem s)
   \<and> without_console (snd (process_item Throws item rem s)) =
       without_console (snd (process_item ReportsError item rem s))
   \<and> fst (processQueue NetInfo ev s) = Inr ()
   \<and> without_console (snd (processQueue NetInfo (ev\<lparr>send := reported (send ev)\<rparr>) s)) =
       without_console (snd (processQueue NetInfo ev s))"
  by (simp add: process_item_eq processQueue_returns processQueue_reported)

theorem transport_exception_as_failure_witness:
  "fst (process_item Throws (new_item ''A'' ''hdr'' 7) [] (constructor (Items three_items)))
     = Inr [(new_item ''A'' ''hdr'' 7)\<lparr>retryCount := 1\<rparr>]
   \<and> fst (process_item ReportsError (new_item ''A'' ''hdr'' 7) [] (constructor (Items three_items)))
     = Inr [(new_item ''A'' ''hdr'' 7)\<lparr>retryCount := 1\<rparr>]
   \<and> fst (processQueue False throwing_pass (constructor (Items three_items))) = Inr ()
   \<and> without_console
        (snd (processQueue False (throwing_pass\<lparr>send := reported (send throwing_pass)\<rparr>)
                (constructor (Items three_items))))
     = without_console (snd (processQueue False throwing_pass (constructor (Items three_items))))"
proof -
  have rc: "retryCount (new_item ''A'' ''hdr'' 7) = 0"
    by (simp add: new_item_def)
  show ?thesis
    using transport_exception_as_failure
            [of "new_item ''A'' ''hdr'' 7" "[]" "constructor (Items three_items)" False
                throwing_pass]
    by (auto simp: rc MAX_RETRY_COUNT_def)
qed

text \<open>
  C6. \<open>getQueue\<close> never throws: it returns the stored queue, and the empty queue when
  nothing is stored or when the read fails, in which case it writes a line on the
  console. \<open>saveQueue\<close> never throws: when the write fails it writes a line on the
  console and the store keeps its value. \<open>processQueue\<close> and \<open>addToQueue\<close> never throw
  either, and the passes they start without awaiting them leave no rejected promise
  behind.
\<close>

theorem errors_are_swallowed:
  "fst (getQueue ok s) = Inr (if ok then persisted s else [])
   \<and> (storage s = Absent \<or> \<not> ok \<longrightarrow> fst (getQueue ok s) = Inr [])
   \<and> (\<not> ok \<longrightarrow> console (snd (getQueue ok s)) = console s @ [''Error getting location queue:''])
   \<and> fst (saveQueue ok q s) = Inr ()
   \<and> (\<not> ok \<longrightarrow> console (snd (saveQueue ok q s)) = console s @ [''Error saving location queue:'']
              \<and> storage (snd (saveQueue ok q s)) = storage s)
   \<and> fst (processQueue NetInfo ev s) = Inr ()
   \<and> unhandled (snd (processQueue NetInfo ev s)) = unhandled s
   \<and> fst (addToQueue NetInfo aev d h now s) = Inr ()
   \<and> unhandled (snd (addToQueue NetInfo aev d h now s)) = unhandled s"
  by (simp add: getQueue_eq saveQueue_eq processQueue_returns processQueue_unhandled
      addToQueue_eq [THEN arg_cong, of fst] addToQueue_unhandled loaded_def)
     (auto simp: persisted_def)

theorem errors_are_swallowed_witness:
  "fst (getQueue False (constructor (Items three_items))) = Inr []
   \<and> console (snd (getQueue False (constructor (Items three_items))))
       = [''Error getting location queue:'']
   \<and> fst (getQueue True (constructor Absent)) = Inr []
   \<and> fst (saveQueue False three_items (constructor Absent)) = Inr ()
   \<and> console (snd (saveQueue False three_items (constructor Absent)))
       = [''Error saving location queue:'']
   \<and> storage (snd (saveQueue False three_items (constructor Absent))) = Absent"
  using errors_are_swallowed [of False "constructor (Items three_items)" three_items False working_pass]
    errors_are_swallowed [of True "constructor Absent"]
    errors_are_swallowed [of False "constructor Absent" three_items False working_pass]
  by (simp add: constructor_def persisted_def)

subsection \<open>The fallback timer\<close>

lemma call_retry_pending:
  assumes "single_flight (s, ps)" "At_fetch \<notin> set ps" "isProcessing s0 = isProcessing s"
    and "react False Call (s0, ps) = (s1, ps1)"
  shows "single_flight (s1, ps1) \<and> At_fetch \<notin> set ps1 \<and> ps1 \<noteq> []
       \<and> persisted s1 = persisted s0 \<and> timeouts s1 = timeouts s0"
  using assms unfolding react_Call by (auto simp: single_flight_def split: if_splits)

lemma settle_retry_pending:
  assumes "retry_pending (s, ps, qs)" "read_ok ev" "write_ok ev"
  shows "retry_pending (case react False (Settle k ev) (s, ps) of (s, ps) \<Rightarrow> (s, ps, qs))"
proof (cases "k < length ps")
  case True
  then obtain p where ps: "ps = [p]" and k: "k = 0"
    using assms(1) by (cases ps) (auto simp: single_flight_def)
  have i: "isProcessing s" and f: "p \<noteq> At_fetch"
    using assms(1) by (auto simp: ps single_flight_def)
  show ?thesis
  proof (cases p)
    case At_fetch
    then show ?thesis using f by simp
  next
    case At_getItem
    then show ?thesis
      using i assms(2)
      by (simp add: ps k getQueue_eq loaded_def single_flight_def split: list.splits)
  next
    case (At_logsApi j item rest rem)
    then show ?thesis
      using i by (simp add: ps k process_item_eq single_flight_def split: list.splits)
  next
    case (At_setItem rem)
    then show ?thesis
      using i assms(3) by (simp add: ps k saveQueue_eq single_flight_def)
  qed
next
  case False
  then show ?thesis
    using assms(1) by simp
qed

lemma add_settles_retry_pending:
  assumes "retry_pending (s, ps, qs)" "addToQueue_resume False ev now q (s, ps) = (n, s1, ps1)"
  shows "retry_pending (s1, ps1, qs')"
proof -
  have sf: "single_flight (s, ps)" "At_fetch \<notin> set ps"
    using assms(1) by simp_all
  note c = call_retry_pending [OF sf]
  show ?thesis
  proof (cases q)
    case (Aq_getItem d h)
    then show ?thesis
      using assms
      by (auto simp: addToQueue_resume_getItem getQueue_eq single_flight_def
            simp del: addToQueue_resume.simps)
  next
    case (Aq_setItem queue)
    show ?thesis
    proof (cases "aq_write_ok ev")
      case True
      then have "react False Call ((did (SetItem queue) s)\<lparr>storage := Items queue\<rparr>, ps) = (s1, ps1)"
        using assms(2)
        by (simp add: Aq_setItem addToQueue_resume_setItem del: addToQueue_resume.simps react.simps)
      then show ?thesis
        using c [of "(did (SetItem queue) s)\<lparr>storage := Items queue\<rparr>" s1 ps1]
        by (simp add: did_def)
    next
      case False
      then show ?thesis
        using assms
        by (auto simp: Aq_setItem addToQueue_resume_setItem single_flight_def did_def console_log_def
              simp del: addToQueue_resume.simps react.simps)
    qed
  next
    case Aq_fetch
    show ?thesis
    proof (cases "aq_fetch ev = Connected")
      case True
      then have "react False Call (did Fetch s, ps) = (s1, ps1)"
        using assms(2)
        by (simp add: Aq_fetch addToQueue_resume_fetch del: addToQueue_resume.simps react.simps)
      then show ?thesis
        using c [of "did Fetch s" s1 ps1] by (simp add: did_def)
    next
      case False
      then show ?thesis
        using assms
        by (cases "aq_fetch ev")
           (auto simp: Aq_fetch addToQueue_resume_fetch single_flight_def did_def console_log_def
              simp del: addToQueue_resume.simps react.simps)
    qed
  qed
qed

lemma happen_retry_pending:
  assumes "retry_pending w" "store_answers e"
  shows "retry_pending (happen False e w)"
proof -
  obtain s ps qs where w: "w = (s, ps, qs)"
    by (cases w) auto
  have r: "retry_pending (s, ps, qs)"
    using assms(1) by (simp add: w)
  then have sf: "single_flight (s, ps)" "At_fetch \<notin> set ps"
    by simp_all
  note c = call_retry_pending [OF sf]
  show ?thesis
  proof (cases e)
    case Calls_init
    obtain s1 ps1 where a: "react False Call (s, ps) = (s1, ps1)"
      by (cases "react False Call (s, ps)") auto
    have "single_flight (scheduleRetry s1, ps1)"
      using c [OF refl a] by (simp add: single_flight_def)
    then show ?thesis
      using c [OF refl a] a by (simp add: w Calls_init del: react.simps)
  next
    case (Calls_addToQueue d h)
    then show ?thesis
      using r by (simp add: w)
  next
    case Calls_processQueue
    obtain s1 ps1 where a: "react False Call (s, ps) = (s1, ps1)"
      by (cases "react False Call (s, ps)") auto
    show ?thesis
      using c [OF refl a] a by (simp add: w Calls_processQueue del: react.simps)
  next
    case (Timeout_fires t)
    obtain s1 ps1 where a: "react False Call (s\<lparr>timeouts := removeAll t (timeouts s)\<rparr>, ps) = (s1, ps1)"
      by (cases "react False Call (s\<lparr>timeouts := removeAll t (timeouts s)\<rparr>, ps)") auto
    show ?thesis
      using c [OF _ a] a r by (simp add: w Timeout_fires del: react.simps)
  next
    case (Network_changes b)
    then show ?thesis
      using r by (simp add: w)
  next
    case (Pass_settles k ev)
    then show ?thesis
      using settle_retry_pending [OF r, of ev k] assms(2)
      by (simp add: w del: react.simps)
  next
    case (Add_settles k ev now)
    show ?thesis
    proof (cases "k < length qs")
      case True
      obtain n s1 ps1 where a: "addToQueue_resume False ev now (qs ! k) (s, ps) = (n, s1, ps1)"
        by (cases "addToQueue_resume False ev now (qs ! k) (s, ps)") auto
      show ?thesis
        using add_settles_retry_pending [OF r a] True a
        by (cases n) (simp_all add: w Add_settles del: addToQueue_resume.simps)
    next
      case False
      then show ?thesis
        using r by (simp add: w Add_settles)
    qed
  qed
qed

lemma happens_retry_pending:
  assumes "\<forall>e\<in>set es. store_answers e" "retry_pending w"
  shows "retry_pending (happens False es w)"
  using assms
proof (induction es arbitrary: w)
  case Nil
  then show ?case by simp
next
  case (Cons e es)
  have "retry_pending (happen False e w)"
    using Cons.prems by (intro happen_retry_pending) simp_all
  then show ?case
    using Cons.prems(1) Cons.IH by simp
qed

lemma resume_setItem_timeouts:
  "timeouts (snd (processQueue_resume ev (At_setItem rem) s)) =
     (if rem = [] then timeouts s
      else filter (\<lambda>h. retryTimer s \<noteq> Some h) (timeouts s) @ [next_handle s])"
  by (simp add: saveQueue_eq scheduleRetry_eq)

text \<open>
  C8, as amended. Without NetInfo, \<open>init\<close> on an idle object starts a pass and then sets
  one timeout; nothing reacts to a change of the network state. The timeout is not
  recurring: when it fires it is no longer pending, and its callback only starts a
  pass. A pass leaves the timeouts alone until it ends, and when it ends after its loop
  it sets the next timeout exactly when it has kept items. As long as the store answers
  the reads and writes of the passes, the following holds in every state that is
  reached after \<open>init\<close>, whatever happens (\<open>addToQueue\<close> and \<open>processQueue\<close> are
  called, timeouts fire, promises settle) and in whatever order: the flag is set
  exactly while a pass is in flight, and when items are stored and no pass is in
  flight, a timeout is pending.
\<close>

theorem init_fallback_retry:
  assumes "\<not> isProcessing s"
  shows "happen False Calls_init (s, [], qs) = (scheduleRetry (s\<lparr>isProcessing := True\<rparr>), [At_getItem], qs)
       \<and> (t \<in> set (timeouts s) \<longrightarrow>
            happen False (Timeout_fires t) (s, [], qs) =
              (s\<lparr>timeouts := removeAll t (timeouts s), isProcessing := True\<rparr>, [At_getItem], qs))
       \<and> timeouts (fst (happen False (Timeout_fires t) (s', ps, qs))) = removeAll t (timeouts s')
       \<and> happen False (Network_changes isConnected) (s', ps, qs) = (s', ps, qs)
       \<and> timeouts (snd (processQueue_resume ev At_getItem s')) = timeouts s'
       \<and> timeouts (snd (processQueue_resume ev (At_logsApi i item rest rem) s')) = timeouts s'
       \<and> timeouts (snd (processQueue_resume ev (At_setItem rem) s')) =
           (if rem = [] then timeouts s'
            else filter (\<lambda>h. retryTimer s' \<noteq> Some h) (timeouts s') @ [next_handle s'])
       \<and> ((\<forall>e\<in>set events. store_answers e) \<longrightarrow>
            retry_pending (happens False (Calls_init # events) (s, [], [])))"
proof (intro conjI impI)
  show i: "happen False Calls_init (s, [], qs) = (scheduleRetry (s\<lparr>isProcessing := True\<rparr>), [At_getItem], qs)"
    using assms by (simp add: processQueue_start_def)
  show "happen False (Timeout_fires t) (s, [], qs) =
          (s\<lparr>timeouts := removeAll t (timeouts s), isProcessing := True\<rparr>, [At_getItem], qs)"
    if "t \<in> set (timeouts s)"
    using assms that by (simp add: processQueue_start_def)
  show "timeouts (snd (processQueue_resume ev (At_setItem rem) s')) =
           (if rem = [] then timeouts s'
            else filter (\<lambda>h. retryTimer s' \<noteq> Some h) (timeouts s') @ [next_handle s'])"
    by (rule resume_setItem_timeouts)
  show "happen False (Network_changes isConnected) (s', ps, qs) = (s', ps, qs)"
    by simp
  show "timeouts (fst (happen False (Timeout_fires t) (s', ps, qs))) = removeAll t (timeouts s')"
    by (simp add: processQueue_start_def)
  show "timeouts (snd (processQueue_resume ev At_getItem s')) = timeouts s'"
    by (simp add: getQueue_eq split: list.splits)
  show "timeouts (snd (processQueue_resume ev (At_logsApi i item rest rem) s')) = timeouts s'"
    by (simp add: process_item_eq split: list.splits)
  have "retry_pending (scheduleRetry (s\<lparr>isProcessing := True\<rparr>), [At_getItem], [])"
    by (simp add: single_flight_def)
  then have "retry_pending (happen False Calls_init (s, [], []))"
    using assms by (simp add: processQueue_start_def)
  then show "retry_pending (happens False (Calls_init # events) (s, [], []))"
    if "\<forall>e\<in>set events. store_answers e"
    using happens_retry_pending [OF that] by (simp del: happen.simps)
qed

text \<open>
  After \<open>init\<close> on an empty store the first pass ends, the timeout fires and the second
  pass ends. Then an item is enqueued and the transport fails: when the pass has ended
  the item is stored with count 1 and a new timeout is pending.
\<close>

theorem init_fallback_retry_witness:
  "\<not> isProcessing (constructor Absent)
   \<and> timeouts (fst (happen False Calls_init (constructor Absent, [], []))) = [1]
   \<and> persisted (fst (happens False
        (Calls_init # [Pass_settles 0 working_pass, Timeout_fires 1, Pass_settles 0 working_pass]
           @ awaited_call (failing_call, ''loc'', ''hdr'', 7)
           @ [Pass_settles 0 failing_pass, Pass_settles 0 failing_pass, Pass_settles 0 failing_pass])
        (constructor Absent, [], [])))
       = [(new_item ''loc'' ''hdr'' 7)\<lparr>retryCount := 1\<rparr>]
   \<and> fst (snd (happens False
        (Calls_init # [Pass_settles 0 working_pass, Timeout_fires 1, Pass_settles 0 working_pass]
           @ awaited_call (failing_call, ''loc'', ''hdr'', 7)
           @ [Pass_settles 0 failing_pass, Pass_settles 0 failing_pass, Pass_settles 0 failing_pass])
        (constructor Absent, [], []))) = []
   \<and> timeouts (fst (happens False
        (Calls_init # [Pass_settles 0 working_pass, Timeout_fires 1, Pass_settles 0 working_pass]
           @ awaited_call (failing_call, ''loc'', ''hdr'', 7)
           @ [Pass_settles 0 failing_pass, Pass_settles 0 failing_pass, Pass_settles 0 failing_pass])
        (constructor Absent, [], []))) \<noteq> []"
proof -
  let ?c = "constructor Absent"
  let ?es = "[Pass_settles 0 working_pass, Timeout_fires 1, Pass_settles 0 working_pass]
                 @ awaited_call (failing_call, ''loc'', ''hdr'', 7)
                 @ [Pass_settles 0 failing_pass, Pass_settles 0 failing_pass,
                    Pass_settles 0 failing_pass]"
  let ?w = "happens False (Calls_init # ?es) (?c, [], [])"
  have i: "\<not> isProcessing ?c"
    by (simp add: constructor_def)
  have a: "\<forall>e\<in>set ?es. store_answers e"
    by (simp add: working_pass_def failing_pass_def)
  note t = init_fallback_retry [OF i, where qs = "[]" and events = ?es]
  have t1: "timeouts (fst (happen False Calls_init (?c, [], []))) = [1]"
    using t by (simp add: scheduleRetry_eq constructor_def del: happen.simps)
  have p: "persisted (fst ?w) = [(new_item ''loc'' ''hdr'' 7)\<lparr>retryCount := 1\<rparr>]"
    and q: "fst (snd ?w) = []"
    by (simp_all add: world_evaluate evaluate working_pass_def failing_call_def failing_pass_def)
  have "retry_pending ?w"
    using t a by blast
  then have "timeouts (fst ?w) \<noteq> []"
    using p q by (cases ?w) (simp del: happens.simps happen.simps awaited_call.simps)
  then show ?thesis
    using i t1 p q by (simp only: simp_thms)
qed

text \<open>
  The claim without the amendment fails in three ways. After \<open>init\<close> on an empty store
  the timeout has fired and no other is set; an item is then enqueued, and while the
  pass that \<open>addToQueue\<close> started is in flight the item is stored and no timeout is
  pending, although the store answers. If the read of that pass fails, the pass sees an
  empty queue and ends without setting a timeout. If the pass delivers the item and its
  write fails, it has kept nothing and sets no timeout either. In both cases an item is
  stored, no pass is in flight and no timeout is pending.
\<close>

theorem fallback_retry_counterexample:
  "happens False
     ([Calls_init, Pass_settles 0 working_pass, Timeout_fires 1, Pass_settles 0 working_pass]
        @ awaited_call (failing_call, ''loc'', ''hdr'', 7))
     (constructor Absent, [], [])
   = (\<lparr>isProcessing = True, retryTimer = Some 1, networkUnsubscribe = False,
        storage = Items [new_item ''loc'' ''hdr'' 7], timeouts = [], next_handle = 2,
        effects = [SetTimeout 1 RETRY_INTERVAL, GetItem, GetItem, GetItem,
                   SetItem [new_item ''loc'' ''hdr'' 7]],
        console = [], unhandled = []\<rparr>, [At_getItem], [])
   \<and> happens False
     ([Calls_init, Pass_settles 0 working_pass, Timeout_fires 1, Pass_settles 0 working_pass]
        @ awaited_call (failing_call, ''loc'', ''hdr'', 7)
        @ [Pass_settles 0 unread_pass])
     (constructor Absent, [], [])
   = (\<lparr>isProcessing = False, retryTimer = Some 1, networkUnsubscribe = False,
        storage = Items [new_item ''loc'' ''hdr'' 7], timeouts = [], next_handle = 2,
        effects = [SetTimeout 1 RETRY_INTERVAL, GetItem, GetItem, GetItem,
                   SetItem [new_item ''loc'' ''hdr'' 7], GetItem],
        console = [''Error getting location queue:''], unhandled = []\<rparr>, [], [])
   \<and> happens False
     ([Calls_init, Pass_settles 0 working_pass, Timeout_fires 1, Pass_settles 0 working_pass]
        @ awaited_call (failing_call, ''loc'', ''hdr'', 7)
        @ [Pass_settles 0 (working_pass\<lparr>write_ok := False\<rparr>),
           Pass_settles 0 (working_pass\<lparr>write_ok := False\<rparr>),
           Pass_settles 0 (working_pass\<lparr>write_ok := False\<rparr>)])
     (constructor Absent, [], [])
   = (\<lparr>isProcessing = False, retryTimer = Some 1, networkUnsubscribe = False,
        storage = Items [new_item ''loc'' ''hdr'' 7], timeouts = [], next_handle = 2,
        effects = [SetTimeout 1 RETRY_INTERVAL, GetItem, GetItem, GetItem,
                   SetItem [new_item ''loc'' ''hdr'' 7], GetItem, Send (new_item ''loc'' ''hdr'' 7),
                   SetItem []],
        console = [''Error saving location queue:''], unhandled = []\<rparr>, [], [])"
  by (simp add: world_evaluate evaluate working_pass_def failing_call_def unread_pass_def)

section \<open>Properties of the payment calculation\<close>

text \<open>The two examples of the documentation comment give 50 and 93.\<close>

lemma documented_examples:
  "totalAmount (calculateDriverCollection (Some b2c_order)) = Fin 93"
  "totalAmount (calculateDriverCollection
     (Some \<lparr>order_source = String ''dispatch_panel'', delivery_fee_paid_by = String ''restaurant'',
            collect_delivery_fees = Undefined, cash_to_be_collected = String ''50.00'',
            amount = Undefined, order_cost = String ''13.00''\<rparr>)) = Fin 50"
  by (simp_all add: calculateDriverCollection_def b2c_order_def or_else_def nullish_or_def
      parseFloat_string_def unsigned_number_def unsigned_literal_def is_digit_def is_space_def
      isNaN_def digits_value_def exponent_def scale_def Let_def)

text \<open>The order type is always one of the four.\<close>

lemma orderType_values:
  "orderType (calculateDriverCollection orderData) \<in> {''B2B'', ''B2C'', ''Unknown'', ''Error''}"
  by (cases orderData) (simp_all add: calculateDriverCollection_def getErrorFallback_def Let_def)

text \<open>An amount \<open>'Infinity'\<close> passes the \<open>isNaN\<close> test and is returned as the total.\<close>

lemma infinite_amount:
  "totalAmount (calculateDriverCollection
     (Some (b2c_order\<lparr>cash_to_be_collected := String ''Infinity''\<rparr>))) = PosInf"
  by (simp add: calculateDriverCollection_def b2c_order_def or_else_def nullish_or_def
      parseFloat_string_def unsigned_number_def unsigned_literal_def is_digit_def is_space_def
      isNaN_def digits_value_def exponent_def scale_def Let_def)

text \<open>
  C10. The claim fails on an order whose delivery fee is not a number and whose fees
  are paid by the customer: \<open>parseFloat\<close> gives \<open>NaN\<close>, the source logs it and goes on
  with \<open>NaN\<close> (its comment says it continues with 0), \<open>Math.max(0, NaN)\<close> is \<open>NaN\<close>, and
  the total is \<open>NaN\<close>.
\<close>

theorem calculateDriverCollection_NaN:
  "totalAmount (calculateDriverCollection (Some unpriced_order)) = NaN
   \<and> orderType (calculateDriverCollection (Some unpriced_order)) = ''B2C''"
  by (simp add: calculateDriverCollection_def unpriced_order_def b2c_order_def or_else_def
      nullish_or_def parseFloat_string_def unsigned_number_def unsigned_literal_def is_digit_def
      is_space_def isNaN_def digits_value_def exponent_def scale_def Let_def)

end
